theory Spec2Isabelle
  imports Main "HOL-Library.Multiset"
begin

section \<open>Data model of \<^verbatim>\<open>MediasoupClient\<close>\<close>

text \<open>
  The class \<^verbatim>\<open>MediasoupClient\<close> of \<^verbatim>\<open>src/app/mediasoupClient.ts\<close> is embedded as a
  record of its fields and one state-passing function per method. The class is
  asynchronous: every piece of synchronous code (a public call, a WebSocket message, the
  completion of a media-engine operation, a promise reaction) is one atomic transition,
  and the environment decides in which order the transitions happen.

  Objects of the media engine are opaque handles. A transport remembers the identity the
  engine gave it (\<open>tr_obj\<close>), the id of the server's transport data and its direction.
\<close>

type_synonym track = nat

record announcement =
  ann_participantId :: string
  ann_producerId :: string
  ann_kind :: string

record transport_data =
  td_id :: string
  td_accepted :: bool
    \<comment> \<open>whether \<^verbatim>\<open>device.createSendTransport\<close> / \<^verbatim>\<open>createRecvTransport\<close> returns for these
       parameters; the engine throws otherwise\<close>

record consumed_data =
  cd_id :: string
  cd_producerId :: string
  cd_kind :: string

record transport =
  tr_obj :: nat
  tr_id :: string
  tr_send :: bool

record producer =
  prod_id :: string
  prod_track :: track

record consumer =
  cons_id :: string
  cons_track :: track

text \<open>Messages of the server, by their \<^verbatim>\<open>type\<close> field, with the fields the client reads.\<close>

datatype message =
    Joined "announcement list option"
  | RtpCapabilities
  | ProducerTransportCreated transport_data
  | ProducerTransportConnected
  | Produced string
  | ConsumerTransportCreated transport_data
  | ConsumerTransportConnected
  | Consumed consumed_data
  | ParticipantJoined string
  | NewProducer announcement
  | ParticipantLeft string
  | Error_message string
  | Unknown_message string

text \<open>Records the client sends; negotiation parameters the client only forwards are left out.\<close>

datatype request =
    Join string
  | GetRtpCapabilities
  | CreateProducerTransport string
  | ConnectProducerTransport string string
  | Produce string string string
  | CreateConsumerTransport string
  | ConnectConsumerTransport string string
  | Consume string string string string

text \<open>The arguments \<^verbatim>\<open>emit\<close> passes to the handlers of an event.\<close>

datatype payload =
    No_args
  | Joined_args "announcement list option"
  | Transport_args transport_data
  | Id_args string
  | Consumed_args consumed_data
  | Producer_args announcement

text \<open>
  Event callbacks are closures; they are represented by what they captured. \<open>Observer n\<close>
  is a callback of the application, registered through the public \<^verbatim>\<open>on\<close>; the others are
  the closures the class itself passes to \<^verbatim>\<open>once\<close>. A handler is a callback or the
  \<^verbatim>\<open>wrapper\<close> closure that \<^verbatim>\<open>once\<close> builds around one; a wrapper has an identity of its
  own (\<^verbatim>\<open>indexOf\<close> compares by identity) and captures the event name.
\<close>

datatype callback =
    Observer nat
  | On_producerTransportCreated track
  | On_producerTransportConnected nat
  | On_produced nat
  | On_consumerTransportCreated nat string string
  | On_consumerTransportConnected nat
  | On_consumed nat transport

datatype handler =
    Plain callback
  | Once_wrapper nat string callback

text \<open>Continuations that run as promise reactions after an \<^verbatim>\<open>await\<close>.\<close>

datatype microtask =
    Resume_createProducerTransport track
  | Resume_createConsumerTransport nat string string transport

text \<open>Asynchronous operations of the media engine that the client awaits.\<close>

datatype engine_op =
    Load_op nat
  | Produce_op transport track
  | Consume_op nat transport consumed_data

datatype engine_result =
    Engine_failed
  | Engine_loaded
  | Engine_produced producer
  | Engine_consumed consumer

datatype error =
    Device_not_initialized
  | Producer_transport_not_created
  | Engine_error

text \<open>What an observer of the client can see, in the order it happens.\<close>

datatype action =
    Sent request
  | Emitted string payload
  | Observed nat payload
  | Engine_callback nat
  | Engine_callback_id nat string
  | Closed_producer producer
  | Closed_consumer consumer
  | Closed_transport transport
  | Closed_ws
  | Produce_resolved track
  | Produce_rejected track error
  | Consume_resolved nat "track option"
  | Unhandled_rejection error

datatype ws_state = Connecting | Open | Closing | Closed

text \<open>
  A call of \<^verbatim>\<open>consumeTrack\<close> is one link of the promise chain \<^verbatim>\<open>consumeQueue\<close>: the
  link is \<open>Queued\<close> until the reaction registered with \<^verbatim>\<open>then\<close> runs, \<open>Running\<close> while
  the promise of \<^verbatim>\<open>_consumeTrack\<close> is pending, and \<open>Settled\<close> with the value the link
  is fulfilled with.
\<close>

datatype phase = Queued | Running | Settled "track option"

record consume_call =
  cc_participant :: string
  cc_producer :: string
  cc_phase :: phase

record client =
  ws :: ws_state
  onopen_join :: bool
  device :: "nat option"
  participantId :: string
  producerTransport :: "transport option"
  consumerTransports :: "(string \<times> transport) list"
  producers :: "(string \<times> producer) list"
  consumers :: "(string \<times> consumer) list"
  eventHandlers :: "(string \<times> handler list) list"
  pendingExistingProducers :: "announcement list"
  consumeQueue :: "consume_call list"
  microtasks :: "microtask list"
  engine_ops :: "engine_op list"
  loaded :: "nat list"
  engine_consumers :: "(nat \<times> consumer) list"
  fresh :: nat
  trace :: "action list"

text \<open>
  The field \<^verbatim>\<open>pendingConsumerTransportResolve\<close> is declared and never read or written.
  \<open>onopen_join\<close> says that \<^verbatim>\<open>connect\<close> has installed its \<^verbatim>\<open>onopen\<close> handler; \<open>fresh\<close>
  numbers the objects created so far; \<open>microtasks\<close>, \<open>engine_ops\<close> and \<open>trace\<close> hold the
  pending continuations, the pending engine operations and the observable history.

  Two fields are the state of the media engine. \<open>loaded\<close> lists the devices whose
  \<^verbatim>\<open>load\<close> has completed: until then a \<^verbatim>\<open>Device\<close> throws from \<^verbatim>\<open>createSendTransport\<close>,
  \<^verbatim>\<open>createRecvTransport\<close> and the getter \<^verbatim>\<open>rtpCapabilities\<close>. \<open>engine_consumers\<close> pairs
  every Consumer the engine has created with the transport whose \<^verbatim>\<open>consume\<close> created it;
  closing a transport closes the Consumers created on it.
\<close>

definition constructor :: "string \<Rightarrow> client" where
  "constructor pid =
     \<lparr> ws = Connecting, onopen_join = False, device = None, participantId = pid,
       producerTransport = None, consumerTransports = [], producers = [], consumers = [],
       eventHandlers = [], pendingExistingProducers = [], consumeQueue = [],
       microtasks = [], engine_ops = [], loaded = [], engine_consumers = [], fresh = 0,
       trace = [] \<rparr>"

definition device_loaded :: "client \<Rightarrow> bool" where
  "device_loaded s = (case device s of None \<Rightarrow> False | Some d \<Rightarrow> d \<in> set (loaded s))"

subsection \<open>JavaScript maps\<close>

text \<open>
  A \<^verbatim>\<open>Map\<close> iterates in insertion order; \<^verbatim>\<open>set\<close> on a present key keeps the key's place.
\<close>

fun map_set :: "'k \<Rightarrow> 'v \<Rightarrow> ('k \<times> 'v) list \<Rightarrow> ('k \<times> 'v) list" where
  "map_set k v [] = [(k, v)]"
| "map_set k v ((k', v') # m) = (if k' = k then (k, v) # m else (k', v') # map_set k v m)"

fun map_get :: "('k \<times> 'v) list \<Rightarrow> 'k \<Rightarrow> 'v option" where
  "map_get [] k = None"
| "map_get ((k', v') # m) k = (if k' = k then Some v' else map_get m k)"

fun map_delete :: "'k \<Rightarrow> ('k \<times> 'v) list \<Rightarrow> ('k \<times> 'v) list" where
  "map_delete k [] = []"
| "map_delete k ((k', v') # m) = (if k' = k then map_delete k m else (k', v') # map_delete k m)"

definition map_values :: "('k \<times> 'v) list \<Rightarrow> 'v list" where
  "map_values m = map snd m"

definition map_keys :: "('k \<times> 'v) list \<Rightarrow> 'k list" where
  "map_keys m = map fst m"

subsection \<open>Logging and sending\<close>

definition record_action :: "action \<Rightarrow> client \<Rightarrow> client" where
  "record_action a s = s\<lparr>trace := trace s @ [a]\<rparr>"

definition send :: "request \<Rightarrow> client \<Rightarrow> client" where
  "send m s = (if ws s = Open then record_action (Sent m) s else s)"

section \<open>The event emitter\<close>

text \<open>
  \<^verbatim>\<open>eventHandlers\<close> maps an event name to an array of handlers. An array is created once,
  by the first \<^verbatim>\<open>on\<close> for its event, and from then on mutated in place (\<^verbatim>\<open>push\<close>,
  \<^verbatim>\<open>splice\<close>): the entry of the map is the array.
\<close>

definition handlers_of :: "client \<Rightarrow> string \<Rightarrow> handler list" where
  "handlers_of s ev = (case map_get (eventHandlers s) ev of None \<Rightarrow> [] | Some hs \<Rightarrow> hs)"

definition on :: "string \<Rightarrow> handler \<Rightarrow> client \<Rightarrow> client" where
  "on ev h s =
     (let s1 = (if map_get (eventHandlers s) ev = None
                then s\<lparr>eventHandlers := map_set ev [] (eventHandlers s)\<rparr> else s)
      in s1\<lparr>eventHandlers := map_set ev (handlers_of s1 ev @ [h]) (eventHandlers s1)\<rparr>)"

definition once :: "string \<Rightarrow> callback \<Rightarrow> client \<Rightarrow> client" where
  "once ev cb s = on ev (Once_wrapper (fresh s) ev cb) (s\<lparr>fresh := Suc (fresh s)\<rparr>)"

text \<open>\<^verbatim>\<open>indexOf\<close> finds the first occurrence and \<^verbatim>\<open>splice(index, 1)\<close> removes it, in place.\<close>

definition off :: "string \<Rightarrow> handler \<Rightarrow> client \<Rightarrow> client" where
  "off ev h s =
     (case map_get (eventHandlers s) ev of
        None \<Rightarrow> s
      | Some hs \<Rightarrow>
          if h \<in> set hs then s\<lparr>eventHandlers := map_set ev (remove1 h hs) (eventHandlers s)\<rparr>
          else s)"

section \<open>Callbacks\<close>

text \<open>
  \<^verbatim>\<open>consumeTrack\<close> builds the link \<^verbatim>\<open>consumeQueue.then(() => _consumeTrack(..)).catch(() => null)\<close>.
  \<open>settle i r\<close> is the promise of \<^verbatim>\<open>_consumeTrack\<close> for call \<open>i\<close> settling: \<open>Inl e\<close> is a
  rejection, \<open>Inr t\<close> a fulfilment. \<^verbatim>\<open>catch\<close> turns a rejection into \<^verbatim>\<open>null\<close>, the awaiting
  caller receives the value, and a promise settles once only.
\<close>

definition catch_null :: "error + track option \<Rightarrow> track option" where
  "catch_null r = (case r of Inl e \<Rightarrow> None | Inr t \<Rightarrow> t)"

definition settle :: "nat \<Rightarrow> error + track option \<Rightarrow> client \<Rightarrow> client" where
  "settle i r s =
     (if i < length (consumeQueue s) \<and> cc_phase (consumeQueue s ! i) = Running
      then record_action (Consume_resolved i (catch_null r))
             (s\<lparr>consumeQueue :=
                  (consumeQueue s)[i := (consumeQueue s ! i)\<lparr>cc_phase := Settled (catch_null r)\<rparr>]\<rparr>)
      else s)"

definition setupProducerTransport :: "payload \<Rightarrow> client \<Rightarrow> error + client" where
  "setupProducerTransport args s =
     (if device s = None then Inl Device_not_initialized
      else if \<not> device_loaded s then Inl Engine_error
      else case args of
             Transport_args td \<Rightarrow>
               if td_accepted td
               then Inr (s\<lparr>producerTransport :=
                             Some \<lparr>tr_obj = fresh s, tr_id = td_id td, tr_send = True\<rparr>,
                           fresh := Suc (fresh s)\<rparr>)
               else Inl Engine_error
           | _ \<Rightarrow> Inl Engine_error)"

definition setupConsumerTransport :: "payload \<Rightarrow> client \<Rightarrow> error + transport \<times> client" where
  "setupConsumerTransport args s =
     (if device s = None then Inl Device_not_initialized
      else if \<not> device_loaded s then Inl Engine_error
      else case args of
             Transport_args td \<Rightarrow>
               if td_accepted td
               then Inr (\<lparr>tr_obj = fresh s, tr_id = td_id td, tr_send = False\<rparr>,
                         s\<lparr>fresh := Suc (fresh s)\<rparr>)
               else Inl Engine_error
           | _ \<Rightarrow> Inl Engine_error)"

text \<open>
  The bodies of the callbacks up to their first \<^verbatim>\<open>await\<close>. The callbacks of
  \<^verbatim>\<open>createProducerTransport\<close> and \<^verbatim>\<open>createConsumerTransport\<close> are \<^verbatim>\<open>async\<close> functions
  without a \<^verbatim>\<open>try\<close>: when the setup throws, their promise is rejected, nobody handles it,
  and \<^verbatim>\<open>resolve\<close> is never called. The callback of \<^verbatim>\<open>_consumeTrack\<close> catches what its
  body throws and resolves with \<^verbatim>\<open>null\<close>.
\<close>

fun call_callback :: "callback \<Rightarrow> payload \<Rightarrow> client \<Rightarrow> client" where
  "call_callback (Observer n) args s = record_action (Observed n args) s"
| "call_callback (On_producerTransportCreated tr) args s =
     (case setupProducerTransport args s of
        Inl e \<Rightarrow> record_action (Unhandled_rejection e) s
      | Inr s' \<Rightarrow> s'\<lparr>microtasks := microtasks s' @ [Resume_createProducerTransport tr]\<rparr>)"
| "call_callback (On_producerTransportConnected c) args s = record_action (Engine_callback c) s"
| "call_callback (On_produced c) args s =
     record_action (Engine_callback_id c (case args of Id_args producer_id \<Rightarrow> producer_id | _ \<Rightarrow> [])) s"
| "call_callback (On_consumerTransportCreated i key pr) args s =
     (case setupConsumerTransport args s of
        Inl e \<Rightarrow> record_action (Unhandled_rejection e) s
      | Inr (t, s') \<Rightarrow>
          s'\<lparr>microtasks := microtasks s' @ [Resume_createConsumerTransport i key pr t]\<rparr>)"
| "call_callback (On_consumerTransportConnected c) args s = record_action (Engine_callback c) s"
| "call_callback (On_consumed i t) args s =
     (case args of
        Consumed_args cd \<Rightarrow> s\<lparr>engine_ops := engine_ops s @ [Consume_op i t cd]\<rparr>
      | _ \<Rightarrow> settle i (Inr None) s)"

fun call_handler :: "handler \<Rightarrow> payload \<Rightarrow> client \<Rightarrow> client" where
  "call_handler (Plain cb) args s = call_callback cb args s"
| "call_handler (Once_wrapper w ev cb) args s =
     off ev (Once_wrapper w ev cb) (call_callback cb args s)"

text \<open>
  \<^verbatim>\<open>handlers.forEach\<close> reads the length of the array once and then visits the indices
  \<open>0, 1, ..\<close> below it, calling the element it finds at each index that is still present.
  The array is the one stored under the event name, so the loop sees what \<^verbatim>\<open>off\<close>
  removed while it runs. \<open>forEach ev args k n\<close> is
  the loop at index \<open>k\<close> with \<open>n\<close> indices to go.
\<close>

fun forEach :: "string \<Rightarrow> payload \<Rightarrow> nat \<Rightarrow> nat \<Rightarrow> client \<Rightarrow> client" where
  "forEach ev args k 0 s = s"
| "forEach ev args k (Suc n) s =
     forEach ev args (Suc k) n
       (if k < length (handlers_of s ev) then call_handler (handlers_of s ev ! k) args s else s)"

definition emit :: "string \<Rightarrow> payload \<Rightarrow> client \<Rightarrow> client" where
  "emit ev args s =
     (let s1 = record_action (Emitted ev args) s
      in case map_get (eventHandlers s1) ev of
           None \<Rightarrow> s1
         | Some hs \<Rightarrow> forEach ev args 0 (length hs) s1)"

section \<open>Methods\<close>

definition joinRoom :: "client \<Rightarrow> client" where
  "joinRoom s = send GetRtpCapabilities (send (Join (participantId s)) s)"

definition connect :: "client \<Rightarrow> client" where
  "connect s = (if ws s = Open then joinRoom s else s\<lparr>onopen_join := True\<rparr>)"

text \<open>
  \<^verbatim>\<open>handleRtpCapabilities\<close> assigns the new device and then awaits its load;
  \<open>handleRtpCapabilities_loaded\<close> is what it does after the load has succeeded.
\<close>

definition handleRtpCapabilities :: "client \<Rightarrow> client" where
  "handleRtpCapabilities s =
     s\<lparr>device := Some (fresh s), fresh := Suc (fresh s),
       engine_ops := engine_ops s @ [Load_op (fresh s)]\<rparr>"

fun emit_newProducers :: "announcement list \<Rightarrow> client \<Rightarrow> client" where
  "emit_newProducers [] s = s"
| "emit_newProducers (p # ps) s =
     emit_newProducers ps
       (emit ''newProducer''
          (Producer_args \<lparr>ann_participantId = ann_participantId p,
                          ann_producerId = ann_producerId p, ann_kind = ann_kind p\<rparr>) s)"

definition handleRtpCapabilities_loaded :: "client \<Rightarrow> client" where
  "handleRtpCapabilities_loaded s =
     (if length (pendingExistingProducers s) > 0
      then let producers = pendingExistingProducers s
           in emit_newProducers producers (s\<lparr>pendingExistingProducers := []\<rparr>)
      else s)"

definition createProducerTransport :: "track \<Rightarrow> client \<Rightarrow> client" where
  "createProducerTransport tr s =
     send (CreateProducerTransport (participantId s))
       (once ''producerTransportCreated'' (On_producerTransportCreated tr) s)"

text \<open>\<open>produceTrack_resume\<close> is \<^verbatim>\<open>produceTrack\<close> from its second check of the transport on.\<close>

definition produceTrack_resume :: "track \<Rightarrow> client \<Rightarrow> client" where
  "produceTrack_resume tr s =
     (case producerTransport s of
        None \<Rightarrow> record_action (Produce_rejected tr Producer_transport_not_created) s
      | Some t \<Rightarrow> s\<lparr>engine_ops := engine_ops s @ [Produce_op t tr]\<rparr>)"

definition produceTrack :: "track \<Rightarrow> client \<Rightarrow> client" where
  "produceTrack tr s =
     (if device s = None then record_action (Produce_rejected tr Device_not_initialized) s
      else if producerTransport s = None then createProducerTransport tr s
      else produceTrack_resume tr s)"

definition produce_done :: "track \<Rightarrow> engine_result \<Rightarrow> client \<Rightarrow> client" where
  "produce_done tr r s =
     (case r of
        Engine_produced p \<Rightarrow>
          record_action (Produce_resolved tr) (s\<lparr>producers := map_set (prod_id p) p (producers s)\<rparr>)
      | _ \<Rightarrow> record_action (Produce_rejected tr Engine_error) s)"

text \<open>
  \<^verbatim>\<open>consumeTrack\<close> only appends a link to the chain. \<open>queue_reaction i\<close> is the reaction of
  link \<open>i\<close>: it runs when the link before it (the value of \<^verbatim>\<open>consumeQueue\<close> when the call
  was made) is fulfilled, and calls \<^verbatim>\<open>_consumeTrack\<close>, here \<open>consumeTrack'\<close>.
\<close>

definition consumeTrack :: "string \<Rightarrow> string \<Rightarrow> client \<Rightarrow> client" where
  "consumeTrack pp pr s =
     s\<lparr>consumeQueue := consumeQueue s @ [\<lparr>cc_participant = pp, cc_producer = pr, cc_phase = Queued\<rparr>]\<rparr>"

text \<open>
  The second promise of \<^verbatim>\<open>_consumeTrack\<close>: its executor registers the handler for
  \<^verbatim>\<open>consumed\<close> and then builds the \<^verbatim>\<open>consume\<close> message, reading
  \<^verbatim>\<open>this.device!.rtpCapabilities\<close>. On a device that is not loaded the getter throws: the
  promise is rejected with the handler registered and nothing sent.
\<close>

definition consume_request :: "nat \<Rightarrow> string \<Rightarrow> string \<Rightarrow> transport \<Rightarrow> client \<Rightarrow> client" where
  "consume_request i pp pr t s =
     (let s1 = once ''consumed'' (On_consumed i t) s
      in if device_loaded s1 then send (Consume (participantId s1) (tr_id t) pp pr) s1
         else settle i (Inl Engine_error) s1)"

definition createConsumerTransport :: "nat \<Rightarrow> string \<Rightarrow> string \<Rightarrow> client \<Rightarrow> client" where
  "createConsumerTransport i key pr s =
     send (CreateConsumerTransport (participantId s))
       (once ''consumerTransportCreated'' (On_consumerTransportCreated i key pr) s)"

definition consumeTrack' :: "nat \<Rightarrow> string \<Rightarrow> string \<Rightarrow> client \<Rightarrow> client" where
  "consumeTrack' i pp pr s =
     (if device s = None then settle i (Inl Device_not_initialized) s
      else case map_get (consumerTransports s) pp of
             Some t \<Rightarrow> consume_request i pp pr t s
           | None \<Rightarrow> createConsumerTransport i pp pr s)"

definition is_settled :: "phase \<Rightarrow> bool" where
  "is_settled p = (case p of Settled r \<Rightarrow> True | _ \<Rightarrow> False)"

definition queue_reaction :: "nat \<Rightarrow> client \<Rightarrow> client" where
  "queue_reaction i s =
     (let q = consumeQueue s in
      if i < length q \<and> cc_phase (q ! i) = Queued
         \<and> (i = 0 \<or> is_settled (cc_phase (q ! (i - 1))))
      then consumeTrack' i (cc_participant (q ! i)) (cc_producer (q ! i))
             (s\<lparr>consumeQueue := q[i := (q ! i)\<lparr>cc_phase := Running\<rparr>]\<rparr>)
      else s)"

definition consume_done :: "nat \<Rightarrow> transport \<Rightarrow> engine_result \<Rightarrow> client \<Rightarrow> client" where
  "consume_done i t r s =
     (case r of
        Engine_consumed c \<Rightarrow>
          settle i (Inr (Some (cons_track c)))
            (s\<lparr>engine_consumers := engine_consumers s @ [(tr_obj t, c)],
               consumers := map_set (cons_id c) c (consumers s)\<rparr>)
      | _ \<Rightarrow> settle i (Inr None) s)"

fun run_microtask :: "microtask \<Rightarrow> client \<Rightarrow> client" where
  "run_microtask (Resume_createProducerTransport tr) s = produceTrack_resume tr s"
| "run_microtask (Resume_createConsumerTransport i key pr t) s =
     consume_request i key pr t (s\<lparr>consumerTransports := map_set key t (consumerTransports s)\<rparr>)"

definition handleParticipantLeft :: "string \<Rightarrow> client \<Rightarrow> client" where
  "handleParticipantLeft pid s =
     emit ''participantLeft'' (Id_args pid)
       (case map_get (consumerTransports s) pid of
          Some t \<Rightarrow>
            (record_action (Closed_transport t) s)
              \<lparr>consumerTransports := map_delete pid (consumerTransports s)\<rparr>
        | None \<Rightarrow> s)"

fun close_all :: "('a \<Rightarrow> action) \<Rightarrow> 'a list \<Rightarrow> client \<Rightarrow> client" where
  "close_all f [] s = s"
| "close_all f (x # xs) s = close_all f xs (record_action (f x) s)"

definition disconnect :: "client \<Rightarrow> client" where
  "disconnect s =
     (let s1 = (close_all Closed_producer (map_values (producers s)) s)\<lparr>producers := []\<rparr>;
          s2 = (close_all Closed_consumer (map_values (consumers s1)) s1)\<lparr>consumers := []\<rparr>;
          s3 = (case producerTransport s2 of
                  None \<Rightarrow> s2 | Some t \<Rightarrow> record_action (Closed_transport t) s2);
          s4 = (close_all Closed_transport (map_values (consumerTransports s3)) s3)
                 \<lparr>consumerTransports := []\<rparr>
      in (record_action Closed_ws s4)
           \<lparr>ws := (if ws s4 = Closed then Closed else Closing)\<rparr>)"

definition onmessage :: "message \<Rightarrow> client \<Rightarrow> client" where
  "onmessage m s =
     (case m of
        Joined existing \<Rightarrow>
          (let s1 = emit ''joined'' (Joined_args existing) s
           in case existing of
                Some ps \<Rightarrow> if length ps > 0 then s1\<lparr>pendingExistingProducers := ps\<rparr> else s1
              | None \<Rightarrow> s1)
      | RtpCapabilities \<Rightarrow> handleRtpCapabilities s
      | ProducerTransportCreated td \<Rightarrow> emit ''producerTransportCreated'' (Transport_args td) s
      | ProducerTransportConnected \<Rightarrow> emit ''producerTransportConnected'' No_args s
      | Produced producer_id \<Rightarrow> emit ''produced'' (Id_args producer_id) s
      | ConsumerTransportCreated td \<Rightarrow> emit ''consumerTransportCreated'' (Transport_args td) s
      | ConsumerTransportConnected \<Rightarrow> emit ''consumerTransportConnected'' No_args s
      | Consumed cd \<Rightarrow> emit ''consumed'' (Consumed_args cd) s
      | ParticipantJoined pid \<Rightarrow> emit ''participantJoined'' (Id_args pid) s
      | NewProducer a \<Rightarrow>
          emit ''newProducer''
            (Producer_args \<lparr>ann_participantId = ann_participantId a,
                            ann_producerId = ann_producerId a, ann_kind = ann_kind a\<rparr>) s
      | ParticipantLeft pid \<Rightarrow> handleParticipantLeft pid s
      | Error_message text \<Rightarrow> s
      | Unknown_message ty \<Rightarrow> s)"

text \<open>The handlers that \<^verbatim>\<open>setupProducerTransport\<close> and \<^verbatim>\<open>setupConsumerTransport\<close> attach
  to the transport's \<^verbatim>\<open>connect\<close> and \<^verbatim>\<open>produce\<close> events.\<close>

definition transport_connect :: "transport \<Rightarrow> nat \<Rightarrow> client \<Rightarrow> client" where
  "transport_connect t c s =
     (if tr_send t
      then send (ConnectProducerTransport (participantId s) (tr_id t))
             (once ''producerTransportConnected'' (On_producerTransportConnected c) s)
      else send (ConnectConsumerTransport (participantId s) (tr_id t))
             (once ''consumerTransportConnected'' (On_consumerTransportConnected c) s))"

definition transport_produce :: "transport \<Rightarrow> string \<Rightarrow> nat \<Rightarrow> client \<Rightarrow> client" where
  "transport_produce t kind c s =
     (if tr_send t
      then send (Produce (participantId s) (tr_id t) kind) (once ''produced'' (On_produced c) s)
      else s)"

section \<open>Transitions\<close>

datatype event =
    Call_on string nat
  | Call_connect
  | Call_produceTrack track
  | Call_consumeTrack string string
  | Call_disconnect
  | Ws_open
  | Ws_close
  | Ws_message message
  | Queue_reaction nat
  | Run_microtask
  | Transport_connect transport nat
  | Transport_produce transport string nat
  | Engine_done engine_op engine_result

definition engine_done :: "engine_op \<Rightarrow> engine_result \<Rightarrow> client \<Rightarrow> client" where
  "engine_done op r s =
     (if op \<in> set (engine_ops s)
      then let s1 = s\<lparr>engine_ops := remove1 op (engine_ops s)\<rparr>
           in case op of
                Load_op d \<Rightarrow>
                  if r = Engine_loaded
                  then handleRtpCapabilities_loaded (s1\<lparr>loaded := d # loaded s1\<rparr>)
                  else record_action (Unhandled_rejection Engine_error) s1
              | Produce_op t tr \<Rightarrow> produce_done tr r s1
              | Consume_op i t cd \<Rightarrow> consume_done i t r s1
      else s)"

fun step :: "client \<Rightarrow> event \<Rightarrow> client" where
  "step s (Call_on ev n) = on ev (Plain (Observer n)) s"
| "step s Call_connect = connect s"
| "step s (Call_produceTrack tr) = produceTrack tr s"
| "step s (Call_consumeTrack pp pr) = consumeTrack pp pr s"
| "step s Call_disconnect = disconnect s"
| "step s Ws_open =
     (if ws s = Connecting
      then (if onopen_join s then joinRoom (s\<lparr>ws := Open\<rparr>) else s\<lparr>ws := Open\<rparr>)
      else s)"
| "step s Ws_close = s\<lparr>ws := Closed\<rparr>"
| "step s (Ws_message m) = onmessage m s"
| "step s (Queue_reaction i) = queue_reaction i s"
| "step s Run_microtask =
     (case microtasks s of [] \<Rightarrow> s | m # ms \<Rightarrow> run_microtask m (s\<lparr>microtasks := ms\<rparr>))"
| "step s (Transport_connect t c) = transport_connect t c s"
| "step s (Transport_produce t kind c) = transport_produce t kind c s"
| "step s (Engine_done op r) = engine_done op r s"

definition run :: "client \<Rightarrow> event list \<Rightarrow> client" where
  "run s evs = foldl step s evs"

section \<open>Observations\<close>

text \<open>The notifications published so far: the calls of \<^verbatim>\<open>emit\<close>, in order.\<close>

definition emitted :: "client \<Rightarrow> (string \<times> payload) list" where
  "emitted s = concat (map (\<lambda>a. case a of Emitted ev args \<Rightarrow> [(ev, args)] | _ \<Rightarrow> []) (trace s))"

lemmas model_defs =
  run_def constructor_def onmessage_def emit_def record_action_def send_def handlers_of_def
  on_def once_def off_def settle_def catch_null_def setupProducerTransport_def
  setupConsumerTransport_def joinRoom_def connect_def handleRtpCapabilities_def
  handleRtpCapabilities_loaded_def createProducerTransport_def produceTrack_resume_def
  produceTrack_def produce_done_def consumeTrack_def consume_request_def
  createConsumerTransport_def consumeTrack'_def is_settled_def queue_reaction_def
  consume_done_def handleParticipantLeft_def disconnect_def transport_connect_def
  transport_produce_def engine_done_def map_values_def map_keys_def device_loaded_def

section \<open>The state of the consume queue\<close>

text \<open>
  The reaction of link \<open>i\<close> of the chain can run: the link is still queued and the link it
  was chained on is fulfilled (the first link is chained on \<^verbatim>\<open>Promise.resolve(null)\<close>).
\<close>

definition startable :: "client \<Rightarrow> nat \<Rightarrow> bool" where
  "startable s i =
     (i < length (consumeQueue s) \<and> cc_phase (consumeQueue s ! i) = Queued
      \<and> (i = 0 \<or> is_settled (cc_phase (consumeQueue s ! (i - 1)))))"

text \<open>
  First in, first out: a call has left the queue only if every call made before it has
  settled. The calls in flight are those whose negotiation has started and not settled.
\<close>

definition fifo :: "phase list \<Rightarrow> bool" where
  "fifo ps = (\<forall>i j. i < j \<and> j < length ps \<and> ps ! j \<noteq> Queued \<longrightarrow> is_settled (ps ! i))"

definition in_flight :: "client \<Rightarrow> consume_call list" where
  "in_flight s = filter (\<lambda>c. cc_phase c = Running) (consumeQueue s)"

fun calls_made :: "event list \<Rightarrow> (string \<times> string) list" where
  "calls_made [] = []"
| "calls_made (Call_consumeTrack pp pr # evs) = (pp, pr) # calls_made evs"
| "calls_made (e # evs) = calls_made evs"

definition call_args :: "consume_call \<Rightarrow> string \<times> string" where
  "call_args c = (cc_participant c, cc_producer c)"

text \<open>
  One queue may evolve into another by settling running calls: same calls, and each phase
  either unchanged or turned from \<open>Running\<close> to \<open>Settled\<close>.
\<close>

definition settles :: "consume_call list \<Rightarrow> consume_call list \<Rightarrow> bool" where
  "settles q q' =
     (length q' = length q \<and>
      (\<forall>i < length q. call_args (q' ! i) = call_args (q ! i) \<and>
         (cc_phase (q' ! i) = cc_phase (q ! i) \<or>
          cc_phase (q ! i) = Running \<and> is_settled (cc_phase (q' ! i)))))"

section \<open>Who can continue a negotiation\<close>

text \<open>
  A negotiation that has started goes on only through a continuation that the client has
  left somewhere: the single-fire handler of \<^verbatim>\<open>createConsumerTransport\<close> or of
  \<^verbatim>\<open>_consumeTrack\<close>, the continuation of \<^verbatim>\<open>createConsumerTransport\<close> after its \<^verbatim>\<open>await\<close>, or
  the engine's pending \<^verbatim>\<open>consume\<close>. A token stands for one such continuation: it names the
  call and, while the transport of the call is being created, the key the transport will be
  stored under.
\<close>

datatype token = Token nat "string option"

fun callback_tokens :: "callback \<Rightarrow> token multiset" where
  "callback_tokens (On_consumerTransportCreated i key pr) = {#Token i (Some key)#}"
| "callback_tokens (On_consumed i t) = {#Token i None#}"
| "callback_tokens cb = {#}"

fun handler_tokens :: "handler \<Rightarrow> token multiset" where
  "handler_tokens (Plain cb) = callback_tokens cb"
| "handler_tokens (Once_wrapper w ev cb) = callback_tokens cb"

fun microtask_tokens :: "microtask \<Rightarrow> token multiset" where
  "microtask_tokens (Resume_createConsumerTransport i key pr t) = {#Token i (Some key)#}"
| "microtask_tokens m = {#}"

fun op_tokens :: "engine_op \<Rightarrow> token multiset" where
  "op_tokens (Consume_op i t cd) = {#Token i None#}"
| "op_tokens op = {#}"

definition map_tokens :: "(string \<times> handler list) list \<Rightarrow> token multiset" where
  "map_tokens m = sum_list (map handler_tokens (concat (map snd m)))"

definition tokens :: "client \<Rightarrow> token multiset" where
  "tokens s =
     map_tokens (eventHandlers s) + sum_list (map microtask_tokens (microtasks s))
       + sum_list (map op_tokens (engine_ops s))"

text \<open>
  A continuation that is creating a transport belongs to a call in flight, and the key it
  will store the transport under is free. The other continuations belong to calls that have
  started; they may outlive their call, since a call that finds its device not loaded
  settles with its handler left registered.
\<close>

fun token_ok :: "client \<Rightarrow> token \<Rightarrow> bool" where
  "token_ok s (Token i key) =
     (i < length (consumeQueue s) \<and>
      (case key of
         None \<Rightarrow> cc_phase (consumeQueue s ! i) \<noteq> Queued
       | Some k \<Rightarrow> cc_phase (consumeQueue s ! i) = Running
                   \<and> map_get (consumerTransports s) k = None))"

text \<open>
  \<open>creating\<close> tells the continuations of \<^verbatim>\<open>createConsumerTransport\<close> from those of the
  second promise of \<^verbatim>\<open>_consumeTrack\<close>. A call has continuations of one kind only: once its
  handler for \<^verbatim>\<open>consumed\<close> is registered, its transport is no longer being created.
\<close>

fun creating :: "token \<Rightarrow> bool" where
  "creating (Token i key) = (key \<noteq> None)"

definition exclusive :: "token multiset \<Rightarrow> bool" where
  "exclusive M = (\<forall>i k. Token i (Some k) \<in># M \<longrightarrow> Token i None \<notin># M)"

text \<open>
  Handlers are where \<^verbatim>\<open>on\<close> and \<^verbatim>\<open>once\<close> put them: a wrapper is stored under the event it
  captured, and the callbacks registered without a wrapper are not the class's own.
\<close>

fun handler_wf :: "string \<Rightarrow> handler \<Rightarrow> bool" where
  "handler_wf ev (Plain cb) = (callback_tokens cb = {#})"
| "handler_wf ev (Once_wrapper w ev' cb) = (ev' = ev)"

definition handlers_wf :: "(string \<times> handler list) list \<Rightarrow> bool" where
  "handlers_wf m = (\<forall>(ev, hs) \<in> set m. \<forall>h \<in> set hs. handler_wf ev h)"

definition one_negotiation :: "client \<Rightarrow> bool" where
  "one_negotiation s =
     (fifo (map cc_phase (consumeQueue s)) \<and> size (filter_mset creating (tokens s)) \<le> 1
      \<and> exclusive (tokens s)
      \<and> (\<forall>tk \<in># tokens s. token_ok s tk) \<and> handlers_wf (eventHandlers s)
      \<and> distinct (map_keys (consumerTransports s)))"

text \<open>
  The Consumer Transports that exist: those stored in the map, and those the engine has
  created for a call that has not stored them yet.
\<close>

fun pending_transports :: "microtask list \<Rightarrow> (string \<times> transport) list" where
  "pending_transports [] = []"
| "pending_transports (Resume_createConsumerTransport i key pr t # ms) =
     (key, t) # pending_transports ms"
| "pending_transports (m # ms) = pending_transports ms"

definition live_transports :: "client \<Rightarrow> (string \<times> transport) list" where
  "live_transports s = consumerTransports s @ pending_transports (microtasks s)"

section \<open>Closing\<close>

text \<open>
  The calls of \<^verbatim>\<open>close\<close> the client has made, in order; and the Consumers that are closed:
  those the client has closed and, the engine closing with a transport the Consumers created
  on it, those of a transport the client has closed.
\<close>

fun is_close :: "action \<Rightarrow> bool" where
  "is_close (Closed_producer p) = True"
| "is_close (Closed_consumer c) = True"
| "is_close (Closed_transport t) = True"
| "is_close Closed_ws = True"
| "is_close a = False"

definition closes :: "client \<Rightarrow> action list" where
  "closes s = filter is_close (trace s)"

definition consumer_closed :: "client \<Rightarrow> consumer \<Rightarrow> bool" where
  "consumer_closed s c =
     (Closed_consumer c \<in> set (closes s)
      \<or> list_ex (\<lambda>a. case a of Closed_transport t \<Rightarrow> (tr_obj t, c) \<in> set (engine_consumers s)
                             | _ \<Rightarrow> False) (closes s))"

section \<open>Registered producers and consumers\<close>

text \<open>A handle is registered under its own id, and under no other key.\<close>

definition registered_by_id :: "client \<Rightarrow> bool" where
  "registered_by_id s =
     (distinct (map_keys (producers s)) \<and> (\<forall>(k, p) \<in> set (producers s). k = prod_id p)
      \<and> distinct (map_keys (consumers s)) \<and> (\<forall>(k, c) \<in> set (consumers s). k = cons_id c))"

section \<open>A negotiation nobody can continue\<close>

text \<open>
  No continuation of any negotiation is left in the client; and the first call of the queue
  is in flight all the same.
\<close>

definition idle :: "client \<Rightarrow> bool" where
  "idle s = (tokens s = {#} \<and> handlers_wf (eventHandlers s))"

definition stalled :: "client \<Rightarrow> bool" where
  "stalled s =
     (idle s \<and> fifo (map cc_phase (consumeQueue s)) \<and> consumeQueue s \<noteq> []
      \<and> cc_phase (consumeQueue s ! 0) = Running)"

section \<open>What the emitter leaves alone\<close>

lemma forEach_preserves:
  assumes "\<And>k s. P s \<Longrightarrow> k < length (handlers_of s ev) \<Longrightarrow>
             P (call_handler (handlers_of s ev ! k) args s)"
  shows "P s \<Longrightarrow> P (forEach ev args k n s)"
  using assms by (induction n arbitrary: k s) auto

lemma emit_preserves:
  assumes "\<And>k s. P s \<Longrightarrow> k < length (handlers_of s ev) \<Longrightarrow>
             P (call_handler (handlers_of s ev ! k) args s)"
    and "P (record_action (Emitted ev args) s)"
  shows "P (emit ev args s)"
  using assms by (auto simp: emit_def Let_def split: option.splits intro: forEach_preserves)

lemma off_frame:
  "trace (off ev h s) = trace s" "producers (off ev h s) = producers s"
  "consumers (off ev h s) = consumers s" "consumerTransports (off ev h s) = consumerTransports s"
  "pendingExistingProducers (off ev h s) = pendingExistingProducers s"
  "consumeQueue (off ev h s) = consumeQueue s" "device (off ev h s) = device s"
  "producerTransport (off ev h s) = producerTransport s" "ws (off ev h s) = ws s"
  "microtasks (off ev h s) = microtasks s" "engine_ops (off ev h s) = engine_ops s"
  "participantId (off ev h s) = participantId s" "fresh (off ev h s) = fresh s"
  by (simp_all add: off_def split: option.splits)

lemma settle_frame:
  "producers (settle i r s) = producers s"
  "consumers (settle i r s) = consumers s" "consumerTransports (settle i r s) = consumerTransports s"
  "pendingExistingProducers (settle i r s) = pendingExistingProducers s"
  "device (settle i r s) = device s"
  "producerTransport (settle i r s) = producerTransport s" "ws (settle i r s) = ws s"
  "microtasks (settle i r s) = microtasks s" "engine_ops (settle i r s) = engine_ops s"
  "participantId (settle i r s) = participantId s" "fresh (settle i r s) = fresh s"
  "eventHandlers (settle i r s) = eventHandlers s"
  by (simp_all add: settle_def record_action_def)

lemma call_callback_frame:
  "producers (call_callback cb args s) = producers s"
  "consumers (call_callback cb args s) = consumers s"
  "consumerTransports (call_callback cb args s) = consumerTransports s"
  "pendingExistingProducers (call_callback cb args s) = pendingExistingProducers s"
  "device (call_callback cb args s) = device s"
  "ws (call_callback cb args s) = ws s"
  "participantId (call_callback cb args s) = participantId s"
  "eventHandlers (call_callback cb args s) = eventHandlers s"
  by (cases cb; simp add: record_action_def setupProducerTransport_def
        setupConsumerTransport_def settle_frame
        split: sum.splits payload.splits prod.splits if_splits)+

lemma call_handler_frame:
  "producers (call_handler h args s) = producers s"
  "consumers (call_handler h args s) = consumers s"
  "consumerTransports (call_handler h args s) = consumerTransports s"
  "pendingExistingProducers (call_handler h args s) = pendingExistingProducers s"
  "device (call_handler h args s) = device s"
  "ws (call_handler h args s) = ws s"
  "participantId (call_handler h args s) = participantId s"
  by (cases h; simp add: off_frame call_callback_frame)+

lemma emit_frame:
  "producers (emit ev args s) = producers s"
  "consumers (emit ev args s) = consumers s"
  "consumerTransports (emit ev args s) = consumerTransports s"
  "pendingExistingProducers (emit ev args s) = pendingExistingProducers s"
  "device (emit ev args s) = device s"
  "ws (emit ev args s) = ws s"
  "participantId (emit ev args s) = participantId s"
  by (rule emit_preserves; simp add: call_handler_frame record_action_def)+

lemma emitted_cong: "trace s = trace s' \<Longrightarrow> emitted s = emitted s'"
  by (simp add: emitted_def)

lemma emitted_updates [simp]:
  "emitted (s\<lparr>pendingExistingProducers := x1\<rparr>) = emitted s"
  "emitted (s\<lparr>engine_ops := x2\<rparr>) = emitted s"
  "emitted (s\<lparr>consumerTransports := x3\<rparr>) = emitted s"
  "emitted (s\<lparr>consumeQueue := x4\<rparr>) = emitted s"
  "emitted (s\<lparr>microtasks := x5\<rparr>) = emitted s"
  "emitted (s\<lparr>eventHandlers := x6\<rparr>) = emitted s"
  "emitted (s\<lparr>loaded := x7\<rparr>) = emitted s"
  "emitted (s\<lparr>engine_consumers := x8\<rparr>) = emitted s"
  by (simp_all add: emitted_def)

lemma emitted_call_callback: "emitted (call_callback cb args s) = emitted s"
  by (cases cb; simp add: emitted_def record_action_def setupProducerTransport_def
        setupConsumerTransport_def settle_def
        split: sum.splits payload.splits prod.splits if_splits)

lemma emitted_call_handler: "emitted (call_handler h args s) = emitted s"
  by (cases h; simp add: emitted_def off_frame emitted_call_callback[unfolded emitted_def])

lemma emitted_emit: "emitted (emit ev args s) = emitted s @ [(ev, args)]"
  by (rule emit_preserves) (simp_all add: emitted_call_handler, simp add: emitted_def record_action_def)

section \<open>The pending-producer buffer\<close>

lemma emit_newProducers_frame:
  "pendingExistingProducers (emit_newProducers ps s) = pendingExistingProducers s"
  by (induction ps arbitrary: s) (simp_all add: emit_frame)

lemma emitted_emit_newProducers:
  "emitted (emit_newProducers ps s) = emitted s @ map (\<lambda>p. (''newProducer'', Producer_args p)) ps"
  by (induction ps arbitrary: s) (simp_all add: emitted_emit)

lemma emitted_loaded:
  "emitted (handleRtpCapabilities_loaded s) =
     emitted s @ map (\<lambda>p. (''newProducer'', Producer_args p)) (pendingExistingProducers s)"
  by (simp add: handleRtpCapabilities_loaded_def emitted_emit_newProducers Let_def)

lemma pending_loaded: "pendingExistingProducers (handleRtpCapabilities_loaded s) = []"
  by (simp add: handleRtpCapabilities_loaded_def emit_newProducers_frame Let_def)

lemma step_load_done:
  "step s (Engine_done (Load_op d) Engine_loaded) =
     (if Load_op d \<in> set (engine_ops s)
      then handleRtpCapabilities_loaded
             (s\<lparr>engine_ops := remove1 (Load_op d) (engine_ops s), loaded := d # loaded s\<rparr>)
      else s)"
  by (simp add: engine_done_def)

lemma emitted_step_load_done:
  "emitted (step s (Engine_done (Load_op d) Engine_loaded)) =
     (if Load_op d \<in> set (engine_ops s)
      then emitted s @ map (\<lambda>p. (''newProducer'', Producer_args p)) (pendingExistingProducers s)
      else emitted s)"
  by (simp add: step_load_done emitted_loaded del: step.simps)

lemma pending_step_load_done:
  "Load_op d \<in> set (engine_ops s) \<Longrightarrow>
     pendingExistingProducers (step s (Engine_done (Load_op d) Engine_loaded)) = []"
  by (simp add: step_load_done pending_loaded del: step.simps)

section \<open>Disconnecting\<close>

lemma close_all_eq: "close_all f xs s = s\<lparr>trace := trace s @ map f xs\<rparr>"
  by (induction xs arbitrary: s) (simp_all add: record_action_def)

lemma trace_disconnect:
  "trace (disconnect s) =
     trace s @ map Closed_producer (map_values (producers s))
       @ map Closed_consumer (map_values (consumers s))
       @ (case producerTransport s of None \<Rightarrow> [] | Some t \<Rightarrow> [Closed_transport t])
       @ map Closed_transport (map_values (consumerTransports s)) @ [Closed_ws]"
  by (simp add: disconnect_def close_all_eq record_action_def Let_def split: option.splits)

lemma disconnect_fields:
  "producers (disconnect s) = []" "consumers (disconnect s) = []"
  "consumerTransports (disconnect s) = []" "producerTransport (disconnect s) = producerTransport s"
  "device (disconnect s) = device s" "eventHandlers (disconnect s) = eventHandlers s"
  "engine_ops (disconnect s) = engine_ops s" "microtasks (disconnect s) = microtasks s"
  "consumeQueue (disconnect s) = consumeQueue s" "fresh (disconnect s) = fresh s"
  "pendingExistingProducers (disconnect s) = pendingExistingProducers s"
  "participantId (disconnect s) = participantId s"
  "ws (disconnect s) = (if ws s = Closed then Closed else Closing)"
  by (simp_all add: disconnect_def close_all_eq record_action_def Let_def split: option.splits)

section \<open>The consume queue only grows and settles\<close>


lemma settles_refl [simp]: "settles q q"
  by (simp add: settles_def)

lemma is_settled_simps [simp]:
  "is_settled (Settled r)" "\<not> is_settled Running" "\<not> is_settled Queued"
  by (simp_all add: is_settled_def)

lemma settles_trans:
  assumes "settles q q'" and "settles q' q''"
  shows "settles q q''"
  unfolding settles_def
proof (intro conjI allI impI)
  show "length q'' = length q" using assms by (simp add: settles_def)
next
  fix i assume i: "i < length q"
  then have i': "i < length q'" using assms by (simp add: settles_def)
  from assms(1) i have a: "call_args (q' ! i) = call_args (q ! i)"
    and b: "cc_phase (q' ! i) = cc_phase (q ! i) \<or>
          cc_phase (q ! i) = Running \<and> is_settled (cc_phase (q' ! i))"
    by (simp_all add: settles_def)
  from assms(2) i' have c: "call_args (q'' ! i) = call_args (q' ! i)"
    and d: "cc_phase (q'' ! i) = cc_phase (q' ! i) \<or>
          cc_phase (q' ! i) = Running \<and> is_settled (cc_phase (q'' ! i))"
    by (simp_all add: settles_def)
  show "call_args (q'' ! i) = call_args (q ! i)" using a c by simp
  show "cc_phase (q'' ! i) = cc_phase (q ! i) \<or>
          cc_phase (q ! i) = Running \<and> is_settled (cc_phase (q'' ! i))"
    using b d by auto
qed

lemma settles_settle: "settles (consumeQueue s) (consumeQueue (settle i r s))"
  by (simp add: settles_def settle_def record_action_def nth_list_update call_args_def)

lemma queue_frame [simp]:
  "consumeQueue (record_action a s) = consumeQueue s"
  "consumeQueue (send m s) = consumeQueue s"
  "consumeQueue (on ev h s) = consumeQueue s"
  "consumeQueue (once ev cb s) = consumeQueue s"
  "consumeQueue (off ev h s) = consumeQueue s"
  by (simp_all add: record_action_def send_def on_def once_def off_frame Let_def)

lemma settles_call_callback: "settles (consumeQueue s) (consumeQueue (call_callback cb args s))"
  by (cases cb; simp add: setupProducerTransport_def
        setupConsumerTransport_def settles_settle
        split: sum.splits payload.splits prod.splits if_splits)

lemma settles_call_handler: "settles (consumeQueue s) (consumeQueue (call_handler h args s))"
  by (cases h; simp add: settles_call_callback)

lemma settles_emit: "settles (consumeQueue s) (consumeQueue (emit ev args s))"
proof (rule emit_preserves)
  fix k and s' :: client
  assume "settles (consumeQueue s) (consumeQueue s')"
  then show "settles (consumeQueue s) (consumeQueue (call_handler (handlers_of s' ev ! k) args s'))"
    by (rule settles_trans) (rule settles_call_handler)
qed simp

lemma settles_emit_newProducers: "settles (consumeQueue s) (consumeQueue (emit_newProducers ps s))"
proof (induction ps arbitrary: s)
  case Nil show ?case by simp
next
  case (Cons p ps)
  show ?case
    by (simp, rule settles_trans [OF settles_emit Cons.IH])
qed

lemma settles_loaded: "settles (consumeQueue s) (consumeQueue (handleRtpCapabilities_loaded s))"
  using settles_emit_newProducers [of "s\<lparr>pendingExistingProducers := []\<rparr>" "pendingExistingProducers s"]
  by (simp add: handleRtpCapabilities_loaded_def Let_def)

lemma settles_onmessage: "settles (consumeQueue s) (consumeQueue (onmessage m s))"
proof (cases m)
  case (Joined x)
  then show ?thesis
    by (auto simp add: onmessage_def Let_def settles_emit split: option.splits)
next
  case (ParticipantLeft pid)
  then show ?thesis
    using settles_emit [of "(record_action (Closed_transport t) s)
              \<lparr>consumerTransports := map_delete pid (consumerTransports s)\<rparr>"
              "''participantLeft''" "Id_args pid" for t]
      settles_emit [of s "''participantLeft''" "Id_args pid"]
    by (simp add: onmessage_def handleParticipantLeft_def split: option.splits)
qed (simp_all add: onmessage_def settles_emit handleRtpCapabilities_def)

lemma settles_engine_done: "settles (consumeQueue s) (consumeQueue (engine_done op r s))"
proof (cases "op \<in> set (engine_ops s)")
  case False then show ?thesis by (simp add: engine_done_def)
next
  case True
  let ?s1 = "s\<lparr>engine_ops := remove1 op (engine_ops s)\<rparr>"
  show ?thesis
  proof (cases op)
    case (Load_op d)
    then show ?thesis using True settles_loaded [of "?s1\<lparr>loaded := d # loaded s\<rparr>"]
      by (simp add: engine_done_def Let_def)
  next
    case (Produce_op t tr)
    then show ?thesis using True
      by (simp add: engine_done_def produce_done_def Let_def split: engine_result.splits)
  next
    case (Consume_op i t cd)
    then show ?thesis using True settles_settle [of ?s1 i] 
      settles_settle [of "?s1\<lparr>engine_consumers := ec, consumers := cs\<rparr>" i for ec cs]
      by (simp add: engine_done_def consume_done_def Let_def split: engine_result.splits)
  qed
qed

lemma queue_createConsumerTransport [simp]:
  "consumeQueue (createConsumerTransport i pp pr s) = consumeQueue s"
  by (simp add: createConsumerTransport_def)

lemma settles_consume_request:
  "settles (consumeQueue s) (consumeQueue (consume_request i pp pr t s))"
  using settles_settle [of "once ''consumed'' (On_consumed i t) s" i]
  by (simp add: consume_request_def Let_def)

lemma settles_consumeTrack': "settles (consumeQueue s) (consumeQueue (consumeTrack' i pp pr s))"
  by (simp add: consumeTrack'_def settles_settle settles_consume_request split: option.splits)

lemma queue_misc [simp]:
  "consumeQueue (produceTrack tr s) = consumeQueue s"
  "consumeQueue (produceTrack_resume tr s) = consumeQueue s"
  "consumeQueue (connect s) = consumeQueue s"
  "consumeQueue (joinRoom s) = consumeQueue s"
  "consumeQueue (transport_connect t c s) = consumeQueue s"
  "consumeQueue (transport_produce t kind c s) = consumeQueue s"
  by (simp_all add: produceTrack_def produceTrack_resume_def createProducerTransport_def
      connect_def joinRoom_def transport_connect_def transport_produce_def split: option.splits)

lemma settles_run_microtask: "settles (consumeQueue s) (consumeQueue (run_microtask m s))"
proof (cases m)
  case (Resume_createProducerTransport tr)
  then show ?thesis by simp
next
  case (Resume_createConsumerTransport i key pr t)
  then show ?thesis
    using settles_consume_request
            [of "s\<lparr>consumerTransports := map_set key t (consumerTransports s)\<rparr>" i key pr t]
    by simp
qed

text \<open>every transition other than a call and a reaction only settles\<close>
lemma settles_step:
  "\<forall>pp pr. e \<noteq> Call_consumeTrack pp pr \<Longrightarrow> \<forall>i. e \<noteq> Queue_reaction i \<Longrightarrow>
     settles (consumeQueue s) (consumeQueue (step s e))"
proof (cases e)
  case Run_microtask
  show ?thesis
  proof (cases "microtasks s")
    case Nil then show ?thesis by (simp add: Run_microtask)
  next
    case (Cons m ms)
    then show ?thesis using settles_run_microtask [of "s\<lparr>microtasks := ms\<rparr>" m]
      by (simp add: Run_microtask)
  qed
qed (simp_all add: settles_onmessage settles_engine_done disconnect_fields)

section \<open>First in, first out\<close>


lemma fifo_settles:
  assumes "settles q q'" and "fifo (map cc_phase q)"
  shows "fifo (map cc_phase q')"
  unfolding fifo_def
proof (intro allI impI)
  fix i j
  assume h: "i < j \<and> j < length (map cc_phase q') \<and> map cc_phase q' ! j \<noteq> Queued"
  from assms(1) have len: "length q' = length q" by (simp add: settles_def)
  from h len have j: "j < length q" and i: "i < length q" by simp_all
  from assms(1) j have pj: "cc_phase (q' ! j) = cc_phase (q ! j) \<or>
          cc_phase (q ! j) = Running \<and> is_settled (cc_phase (q' ! j))"
    by (simp add: settles_def)
  from assms(1) i have pi: "cc_phase (q' ! i) = cc_phase (q ! i) \<or>
          cc_phase (q ! i) = Running \<and> is_settled (cc_phase (q' ! i))"
    by (simp add: settles_def)
  from h pj j len have "cc_phase (q ! j) \<noteq> Queued" by auto
  with assms(2) h i j have "is_settled (cc_phase (q ! i))"
    unfolding fifo_def by (metis length_map nth_map)
  with pi have "is_settled (cc_phase (q' ! i))" by auto
  then show "is_settled (map cc_phase q' ! i)" using i len by simp
qed

lemma args_settles: "settles q q' \<Longrightarrow> map call_args q' = map call_args q"
  by (auto simp: settles_def list_eq_iff_nth_eq)

lemma fifo_append_Queued:
  "fifo ps \<Longrightarrow> fifo (ps @ [Queued])"
  unfolding fifo_def by (auto simp: nth_append split: if_splits)

text \<open>starting the first queued call keeps the order\<close>
lemma fifo_start:
  assumes f: "fifo (map cc_phase q)" and i: "i < length q" and qd: "cc_phase (q ! i) = Queued"
    and pred: "i = 0 \<or> is_settled (cc_phase (q ! (i - 1)))"
  shows "fifo (map cc_phase (q[i := (q ! i)\<lparr>cc_phase := Running\<rparr>]))"
  unfolding fifo_def
proof (intro allI impI)
  fix a b
  let ?q' = "q[i := (q ! i)\<lparr>cc_phase := Running\<rparr>]"
  assume h: "a < b \<and> b < length (map cc_phase ?q') \<and> map cc_phase ?q' ! b \<noteq> Queued"
  then have b: "b < length q" and a: "a < length q" by simp_all
  have later: "\<And>c. i < c \<Longrightarrow> c < length q \<Longrightarrow> cc_phase (q ! c) = Queued"
  proof (rule ccontr)
    fix c assume c: "i < c" "c < length q" "cc_phase (q ! c) \<noteq> Queued"
    with f i have "is_settled (cc_phase (q ! i))"
      unfolding fifo_def by (metis length_map nth_map)
    with qd show False by simp
  qed
  have earlier: "\<And>c. c < i \<Longrightarrow> is_settled (cc_phase (q ! c))"
  proof -
    fix c assume c: "c < i"
    then have i0: "i \<noteq> 0" by simp
    with pred have p: "is_settled (cc_phase (q ! (i - 1)))" by simp
    show "is_settled (cc_phase (q ! c))"
    proof (cases "c = i - 1")
      case True with p show ?thesis by simp
    next
      case False
      with c have "c < i - 1" by simp
      moreover have "i - 1 < length (map cc_phase q)" using i by simp
      moreover have "map cc_phase q ! (i - 1) \<noteq> Queued" using p i by auto
      ultimately have "is_settled (map cc_phase q ! c)" using f unfolding fifo_def by blast
      then show ?thesis using c i by simp
    qed
  qed
  have bi: "b \<le> i"
  proof (rule ccontr)
    assume "\<not> b \<le> i"
    then have "i < b" by simp
    with later b have "cc_phase (q ! b) = Queued" by simp
    with h \<open>i < b\<close> b show False by simp
  qed
  with h have "a < i" by simp
  then have "is_settled (cc_phase (q ! a))" by (rule earlier)
  then show "is_settled (map cc_phase ?q' ! a)" using a \<open>a < i\<close> by simp
qed

lemma queue_reaction_startable:
  "queue_reaction i s =
     (if startable s i
      then consumeTrack' i (cc_participant (consumeQueue s ! i)) (cc_producer (consumeQueue s ! i))
             (s\<lparr>consumeQueue := (consumeQueue s)[i := (consumeQueue s ! i)\<lparr>cc_phase := Running\<rparr>]\<rparr>)
      else s)"
  by (simp add: queue_reaction_def startable_def Let_def)

lemma fifo_queue_reaction:
  "fifo (map cc_phase (consumeQueue s)) \<Longrightarrow> fifo (map cc_phase (consumeQueue (queue_reaction i s)))"
proof (cases "startable s i")
  case False
  assume "fifo (map cc_phase (consumeQueue s))"
  with False show ?thesis by (simp add: queue_reaction_startable)
next
  case True
  assume f: "fifo (map cc_phase (consumeQueue s))"
  let ?q = "consumeQueue s"
  let ?s1 = "s\<lparr>consumeQueue := ?q[i := (?q ! i)\<lparr>cc_phase := Running\<rparr>]\<rparr>"
  have "fifo (map cc_phase (consumeQueue ?s1))"
    using fifo_start [OF f] True by (simp add: startable_def)
  then have "fifo (map cc_phase (consumeQueue (consumeTrack' i (cc_participant (?q ! i)) (cc_producer (?q ! i)) ?s1)))"
    by (rule fifo_settles [OF settles_consumeTrack'])
  with True show ?thesis by (simp add: queue_reaction_startable)
qed

lemma args_queue_reaction:
  "map call_args (consumeQueue (queue_reaction i s)) = map call_args (consumeQueue s)"
proof (cases "startable s i")
  case False
  then show ?thesis by (simp add: queue_reaction_startable)
next
  case True
  let ?q = "consumeQueue s"
  let ?s1 = "s\<lparr>consumeQueue := ?q[i := (?q ! i)\<lparr>cc_phase := Running\<rparr>]\<rparr>"
  have "map call_args (consumeQueue (consumeTrack' i (cc_participant (?q ! i)) (cc_producer (?q ! i)) ?s1))
      = map call_args (consumeQueue ?s1)"
    by (rule args_settles [OF settles_consumeTrack'])
  also have "\<dots> = map call_args ?q"
    using True by (intro nth_equalityI) (auto simp add: nth_list_update call_args_def startable_def)
  finally show ?thesis using True by (simp add: queue_reaction_startable)
qed

lemma fifo_step: "fifo (map cc_phase (consumeQueue s)) \<Longrightarrow> fifo (map cc_phase (consumeQueue (step s e)))"
proof (cases "(\<exists>pp pr. e = Call_consumeTrack pp pr) \<or> (\<exists>i. e = Queue_reaction i)")
  case False
  assume "fifo (map cc_phase (consumeQueue s))"
  with False show ?thesis by (intro fifo_settles [OF settles_step]) auto
next
  case True
  assume "fifo (map cc_phase (consumeQueue s))"
  with True show ?thesis
    by (auto simp: consumeTrack_def fifo_append_Queued fifo_queue_reaction)
qed

lemma calls_made_snoc:
  "calls_made (evs @ [e]) =
     calls_made evs @ (case e of Call_consumeTrack pp pr \<Rightarrow> [(pp, pr)] | _ \<Rightarrow> [])"
  by (induction evs rule: calls_made.induct) (simp_all split: event.splits)

lemma args_step:
  "map call_args (consumeQueue (step s e)) =
     map call_args (consumeQueue s) @ (case e of Call_consumeTrack pp pr \<Rightarrow> [(pp, pr)] | _ \<Rightarrow> [])"
proof (cases "(\<exists>pp pr. e = Call_consumeTrack pp pr) \<or> (\<exists>i. e = Queue_reaction i)")
  case False
  then have "map call_args (consumeQueue (step s e)) = map call_args (consumeQueue s)"
    by (intro args_settles [OF settles_step]) auto
  with False show ?thesis by (cases e) auto
next
  case True
  then show ?thesis
    by (auto simp: consumeTrack_def call_args_def args_queue_reaction)
qed

lemma run_snoc: "run s (evs @ [e]) = step (run s evs) e"
  by (simp add: run_def)

lemma fifo_run: "fifo (map cc_phase (consumeQueue (run (constructor pid) evs)))"
proof (induction evs rule: rev_induct)
  case Nil show ?case by (simp add: run_def constructor_def fifo_def)
next
  case (snoc e evs) then show ?case by (simp only: run_snoc fifo_step)
qed

lemma args_run: "map call_args (consumeQueue (run (constructor pid) evs)) = calls_made evs"
proof (induction evs rule: rev_induct)
  case Nil show ?case by (simp add: run_def constructor_def)
next
  case (snoc e evs) then show ?case by (simp only: run_snoc args_step calls_made_snoc)
qed

lemma fifo_Cons:
  "fifo (p # ps) = ((\<not> is_settled p \<longrightarrow> (\<forall>x \<in> set ps. x = Queued)) \<and> fifo ps)"
proof
  assume f: "fifo (p # ps)"
  have 1: "\<not> is_settled p \<longrightarrow> (\<forall>x \<in> set ps. x = Queued)"
  proof (intro impI ballI, rule ccontr)
    fix x assume np: "\<not> is_settled p" and x: "x \<in> set ps" and nq: "x \<noteq> Queued"
    from x obtain n where n: "n < length ps" "ps ! n = x" by (auto simp: in_set_conv_nth)
    from f have "0 < Suc n \<and> Suc n < length (p # ps) \<and> (p # ps) ! Suc n \<noteq> Queued \<longrightarrow> is_settled ((p # ps) ! 0)"
      unfolding fifo_def by blast
    with n nq np show False by simp
  qed
  have 2: "fifo ps"
    unfolding fifo_def
  proof (intro allI impI)
    fix i j assume "i < j \<and> j < length ps \<and> ps ! j \<noteq> Queued"
    then have "Suc i < Suc j \<and> Suc j < length (p # ps) \<and> (p # ps) ! Suc j \<noteq> Queued" by simp
    with f have "is_settled ((p # ps) ! Suc i)" unfolding fifo_def by blast
    then show "is_settled (ps ! i)" by simp
  qed
  from 1 2 show "(\<not> is_settled p \<longrightarrow> (\<forall>x \<in> set ps. x = Queued)) \<and> fifo ps" ..
next
  assume h: "(\<not> is_settled p \<longrightarrow> (\<forall>x \<in> set ps. x = Queued)) \<and> fifo ps"
  show "fifo (p # ps)"
    unfolding fifo_def
  proof (intro allI impI)
    fix i j assume a: "i < j \<and> j < length (p # ps) \<and> (p # ps) ! j \<noteq> Queued"
    then obtain j' where j': "j = Suc j'" by (cases j) auto
    with a have pj: "ps ! j' \<noteq> Queued" "j' < length ps" by simp_all
    show "is_settled ((p # ps) ! i)"
    proof (cases i)
      case 0
      from pj have "\<not> (\<forall>x \<in> set ps. x = Queued)" by (metis nth_mem)
      with h 0 show ?thesis by auto
    next
      case (Suc i')
      with a j' have "i' < j' \<and> j' < length ps \<and> ps ! j' \<noteq> Queued" by simp
      with h have "is_settled (ps ! i')" unfolding fifo_def by blast
      with Suc show ?thesis by simp
    qed
  qed
qed

lemma fifo_one_running:
  "fifo (map cc_phase q) \<Longrightarrow> length (filter (\<lambda>c. cc_phase c = Running) q) \<le> 1"
proof (induction q)
  case Nil show ?case by simp
next
  case (Cons c q)
  then have f: "fifo (map cc_phase q)" and r: "\<not> is_settled (cc_phase c) \<longrightarrow> (\<forall>x \<in> set (map cc_phase q). x = Queued)"
    by (simp_all add: fifo_Cons)
  show ?case
  proof (cases "cc_phase c = Running")
    case True
    with r have "\<forall>x \<in> set q. cc_phase x = Queued" by simp
    then have "filter (\<lambda>c. cc_phase c = Running) q = []" by (auto simp: filter_empty_conv)
    with True show ?thesis by simp
  next
    case False
    with Cons.IH [OF f] show ?thesis by simp
  qed
qed

section \<open>A participant leaves\<close>

lemma map_get_map_delete: "map_get (map_delete k m) k = None"
  by (induction m) auto

lemma trace_call_callback: "\<exists>r. trace (call_callback cb args s) = trace s @ r"
  by (cases cb; simp add: record_action_def setupProducerTransport_def
        setupConsumerTransport_def settle_def
        split: sum.splits payload.splits prod.splits if_splits)

lemma trace_call_handler: "\<exists>r. trace (call_handler h args s) = trace s @ r"
  by (cases h; simp add: off_frame trace_call_callback)

text \<open>no handler closes anything, and none touches what the engine has created\<close>
lemma closes_updates [simp]:
  "closes (s\<lparr>consumerTransports := x1\<rparr>) = closes s"
  "closes (s\<lparr>eventHandlers := x2\<rparr>) = closes s"
  "closes (s\<lparr>microtasks := x3\<rparr>) = closes s"
  "closes (s\<lparr>engine_ops := x4\<rparr>) = closes s"
  "closes (s\<lparr>consumeQueue := x5\<rparr>) = closes s"
  "closes (s\<lparr>fresh := x6\<rparr>) = closes s"
  "closes (s\<lparr>producerTransport := x7\<rparr>) = closes s"
  by (simp_all add: closes_def)

lemma closes_record_action:
  "closes (record_action a s) = closes s @ (if is_close a then [a] else [])"
  by (simp add: closes_def record_action_def)

lemma closes_call_callback: "closes (call_callback cb args s) = closes s"
  by (cases cb; simp add: closes_def record_action_def setupProducerTransport_def
        setupConsumerTransport_def settle_def
        split: sum.splits payload.splits prod.splits if_splits)

lemma closes_call_handler: "closes (call_handler h args s) = closes s"
  by (cases h; simp add: closes_def off_frame closes_call_callback [unfolded closes_def])

lemma closes_emit: "closes (emit ev args s) = closes s"
  by (rule emit_preserves) (simp_all add: closes_call_handler closes_record_action)

lemma engine_consumers_call_callback:
  "engine_consumers (call_callback cb args s) = engine_consumers s"
  by (cases cb; simp add: record_action_def setupProducerTransport_def
        setupConsumerTransport_def settle_def
        split: sum.splits payload.splits prod.splits if_splits)

lemma engine_consumers_call_handler:
  "engine_consumers (call_handler h args s) = engine_consumers s"
  by (cases h; simp add: off_def engine_consumers_call_callback split: option.splits)

lemma engine_consumers_emit: "engine_consumers (emit ev args s) = engine_consumers s"
  by (rule emit_preserves) (simp_all add: engine_consumers_call_handler record_action_def)

lemma trace_emit: "\<exists>r. trace (emit ev args s) = trace s @ Emitted ev args # r"
proof (rule emit_preserves)
  show "\<exists>r. trace (record_action (Emitted ev args) s) = trace s @ Emitted ev args # r"
    by (simp add: record_action_def)
next
  fix k and s' :: client
  assume "\<exists>r. trace s' = trace s @ Emitted ev args # r"
  then obtain r where r: "trace s' = trace s @ Emitted ev args # r" ..
  obtain r' where "trace (call_handler (handlers_of s' ev ! k) args s') = trace s' @ r'"
    using trace_call_handler by blast
  with r show "\<exists>r. trace (call_handler (handlers_of s' ev ! k) args s') =
      trace s @ Emitted ev args # r"
    by simp
qed

section \<open>Maps and tokens\<close>


lemma map_get_Some_mem: "map_get m k = Some v \<Longrightarrow> (k, v) \<in> set m"
  by (induction m k rule: map_get.induct) (auto split: if_splits)

lemma map_get_None_keys: "(map_get m k = None) = (k \<notin> set (map_keys m))"
  by (induction m k rule: map_get.induct) (auto simp: map_keys_def split: if_splits)

lemma set_map_set: "set (map_set k v m) \<subseteq> insert (k, v) (set m)"
  by (induction k v m rule: map_set.induct) (auto split: if_splits)

lemma keys_map_set: "set (map_keys (map_set k v m)) = insert k (set (map_keys m))"
  by (induction k v m rule: map_set.induct) (auto simp: map_keys_def split: if_splits)

lemma distinct_map_set: "distinct (map_keys m) \<Longrightarrow> distinct (map_keys (map_set k v m))"
proof (induction m)
  case Nil show ?case by (simp add: map_keys_def)
next
  case (Cons a m)
  obtain k' v' where a: "a = (k', v')" by (cases a)
  from Cons.prems have d: "distinct (map_keys m)" and n: "k' \<notin> set (map_keys m)"
    by (simp_all add: a map_keys_def)
  show ?case
  proof (cases "k' = k")
    case True with Cons.prems show ?thesis by (simp add: a map_keys_def)
  next
    case False
    have "k' \<notin> set (map_keys (map_set k v m))" using n False by (simp add: keys_map_set)
    with Cons.IH [OF d] False show ?thesis by (simp add: a map_keys_def)
  qed
qed

lemma keys_map_delete: "set (map_keys (map_delete k m)) = set (map_keys m) - {k}"
  by (induction k m rule: map_delete.induct) (auto simp: map_keys_def split: if_splits)

lemma distinct_map_delete: "distinct (map_keys m) \<Longrightarrow> distinct (map_keys (map_delete k m))"
proof (induction m)
  case Nil show ?case by (simp add: map_keys_def)
next
  case (Cons a m)
  obtain k' v' where a: "a = (k', v')" by (cases a)
  from Cons.prems have d: "distinct (map_keys m)" and n: "k' \<notin> set (map_keys m)"
    by (simp_all add: a map_keys_def)
  have "k' \<notin> set (map_keys (map_delete k m))" using n by (simp add: keys_map_delete)
  with Cons.IH [OF d] show ?case by (simp add: a map_keys_def)
qed

lemma map_get_map_set: "map_get (map_set k v m) k' = (if k' = k then Some v else map_get m k')"
  by (induction k v m rule: map_set.induct) (auto split: if_splits)

lemma map_get_delete_other: "map_get m k' = None \<Longrightarrow> map_get (map_delete k m) k' = None"
  by (induction k m rule: map_delete.induct) (auto split: if_splits)

text \<open>tokens of the handler map under an update of one entry\<close>
lemma map_tokens_Cons: "map_tokens ((k, hs) # m) = sum_list (map handler_tokens hs) + map_tokens m"
  by (simp add: map_tokens_def)

lemma map_tokens_Nil: "map_tokens [] = {#}"
  by (simp add: map_tokens_def)

lemma map_tokens_map_set:
  "map_tokens (map_set ev hs m)
     + sum_list (map handler_tokens (case map_get m ev of None \<Rightarrow> [] | Some old \<Rightarrow> old))
   = map_tokens m + sum_list (map handler_tokens hs)"
proof (induction m)
  case Nil show ?case by (simp add: map_tokens_Cons map_tokens_Nil)
next
  case (Cons a m)
  obtain k' v' where a: "a = (k', v')" by (cases a)
  show ?case
  proof (cases "k' = ev")
    case True then show ?thesis by (simp add: a map_tokens_Cons)
  next
    case False
    with Cons.IH show ?thesis by (simp add: a map_tokens_Cons add.assoc)
  qed
qed

lemma tokens_updates [simp]:
  "tokens (s\<lparr>trace := x1\<rparr>) = tokens s"
  "tokens (s\<lparr>consumeQueue := x2\<rparr>) = tokens s"
  "tokens (s\<lparr>consumerTransports := x3\<rparr>) = tokens s"
  "tokens (s\<lparr>producers := x4\<rparr>) = tokens s"
  "tokens (s\<lparr>consumers := x5\<rparr>) = tokens s"
  "tokens (s\<lparr>fresh := x6\<rparr>) = tokens s"
  "tokens (s\<lparr>producerTransport := x7\<rparr>) = tokens s"
  "tokens (s\<lparr>pendingExistingProducers := x8\<rparr>) = tokens s"
  "tokens (s\<lparr>device := x9\<rparr>) = tokens s"
  "tokens (s\<lparr>ws := x10\<rparr>) = tokens s"
  "tokens (s\<lparr>onopen_join := x11\<rparr>) = tokens s"
  "tokens (s\<lparr>loaded := x12\<rparr>) = tokens s"
  "tokens (s\<lparr>engine_consumers := x13\<rparr>) = tokens s"
  by (simp_all add: tokens_def)

lemma tokens_record_action [simp]: "tokens (record_action a s) = tokens s"
  by (simp add: record_action_def)

lemma tokens_send [simp]: "tokens (send m s) = tokens s"
  by (simp add: send_def)

lemma tokens_settle [simp]: "tokens (settle i r s) = tokens s"
  by (simp add: settle_def)

lemma tokens_on: "tokens (on ev h s) = tokens s + handler_tokens h"
proof -
  let ?m = "eventHandlers s"
  show ?thesis
  proof (cases "map_get ?m ev")
    case None
    have 1: "map_tokens (map_set ev [] ?m) = map_tokens ?m"
      using map_tokens_map_set [of ev "[]" ?m] None by simp
    have 2: "map_tokens (map_set ev [h] (map_set ev [] ?m)) = map_tokens (map_set ev [] ?m) + handler_tokens h"
      using map_tokens_map_set [of ev "[h]" "map_set ev [] ?m"] by (simp add: map_get_map_set)
    show ?thesis using None 1 2
      by (simp add: on_def Let_def handlers_of_def tokens_def map_get_map_set)
  next
    case (Some old)
    have "map_tokens (map_set ev (old @ [h]) ?m) + sum_list (map handler_tokens old)
        = map_tokens ?m + sum_list (map handler_tokens (old @ [h]))"
      using map_tokens_map_set [of ev "old @ [h]" ?m] Some by simp
    then have "map_tokens (map_set ev (old @ [h]) ?m) = map_tokens ?m + handler_tokens h"
      by (simp add: ac_simps)
    then show ?thesis using Some
      by (simp add: on_def Let_def handlers_of_def tokens_def)
  qed
qed

lemma tokens_once: "tokens (once ev cb s) = tokens s + callback_tokens cb"
  by (simp add: once_def tokens_on)

lemma sum_list_remove1_tokens:
  "h \<in> set hs \<Longrightarrow>
     sum_list (map handler_tokens (remove1 h hs)) + handler_tokens h = sum_list (map handler_tokens hs)"
  by (induction hs) (auto simp: ac_simps)

lemma tokens_off:
  "h \<in> set (handlers_of s ev) \<Longrightarrow> tokens (off ev h s) + handler_tokens h = tokens s"
proof -
  assume h: "h \<in> set (handlers_of s ev)"
  then obtain hs where hs: "map_get (eventHandlers s) ev = Some hs" "h \<in> set hs"
    by (cases "map_get (eventHandlers s) ev") (auto simp: handlers_of_def)
  have "map_tokens (map_set ev (remove1 h hs) (eventHandlers s)) + sum_list (map handler_tokens hs)
      = map_tokens (eventHandlers s) + sum_list (map handler_tokens (remove1 h hs))"
    using map_tokens_map_set [of ev "remove1 h hs" "eventHandlers s"] hs by simp
  then have "map_tokens (map_set ev (remove1 h hs) (eventHandlers s))
        + (sum_list (map handler_tokens (remove1 h hs)) + handler_tokens h)
      = map_tokens (eventHandlers s) + sum_list (map handler_tokens (remove1 h hs))"
    by (simp only: sum_list_remove1_tokens [OF hs(2)])
  then have "(map_tokens (map_set ev (remove1 h hs) (eventHandlers s)) + handler_tokens h)
        + sum_list (map handler_tokens (remove1 h hs))
      = map_tokens (eventHandlers s) + sum_list (map handler_tokens (remove1 h hs))"
    by (simp only: add.assoc add.commute [of "handler_tokens h"])
  then have "map_tokens (map_set ev (remove1 h hs) (eventHandlers s)) + handler_tokens h
      = map_tokens (eventHandlers s)"
    by (simp only: add_right_cancel)
  then show ?thesis using hs by (simp add: off_def tokens_def ac_simps)
qed

lemma off_absent: "h \<notin> set (handlers_of s ev) \<Longrightarrow> off ev h s = s"
  by (auto simp: off_def handlers_of_def split: option.splits)

lemma handler_tokens_sub:
  "h \<in> set (handlers_of s ev) \<Longrightarrow> handler_tokens h \<subseteq># tokens s"
proof -
  assume h: "h \<in> set (handlers_of s ev)"
  have "tokens (off ev h s) + handler_tokens h = tokens s" by (rule tokens_off [OF h])
  then show ?thesis by (metis mset_subset_eq_add_right)
qed

section \<open>One negotiation at a time: the invariant\<close>


lemma cts_frame [simp]:
  "consumerTransports (record_action a s) = consumerTransports s"
  "consumerTransports (send m s) = consumerTransports s"
  "consumerTransports (on ev h s) = consumerTransports s"
  "consumerTransports (once ev cb s) = consumerTransports s"
  "consumerTransports (off ev h s) = consumerTransports s"
  "consumerTransports (settle i r s) = consumerTransports s"
  by (simp_all add: record_action_def send_def on_def once_def off_frame settle_frame Let_def)

lemma handlers_frame [simp]:
  "eventHandlers (record_action a s) = eventHandlers s"
  "eventHandlers (send m s) = eventHandlers s"
  "eventHandlers (settle i r s) = eventHandlers s"
  by (simp_all add: record_action_def send_def settle_frame)

lemma handlers_wf_map_set:
  "handlers_wf m \<Longrightarrow> \<forall>h \<in> set hs. handler_wf ev h \<Longrightarrow> handlers_wf (map_set ev hs m)"
  using set_map_set [of ev hs m] unfolding handlers_wf_def by blast

lemma handlers_of_wf:
  "handlers_wf (eventHandlers s) \<Longrightarrow> h \<in> set (handlers_of s ev) \<Longrightarrow> handler_wf ev h"
proof -
  assume wf: "handlers_wf (eventHandlers s)" and h: "h \<in> set (handlers_of s ev)"
  then obtain hs where hs: "map_get (eventHandlers s) ev = Some hs" "h \<in> set hs"
    by (cases "map_get (eventHandlers s) ev") (auto simp: handlers_of_def)
  from hs(1) have "(ev, hs) \<in> set (eventHandlers s)" by (rule map_get_Some_mem)
  with wf hs(2) show ?thesis unfolding handlers_wf_def by blast
qed

lemma handlers_wf_on:
  assumes wf: "handlers_wf (eventHandlers s)" and h: "handler_wf ev h"
  shows "handlers_wf (eventHandlers (on ev h s))"
proof (cases "map_get (eventHandlers s) ev")
  case None
  have "handlers_wf (map_set ev [] (eventHandlers s))"
    by (rule handlers_wf_map_set [OF wf]) simp
  then have "handlers_wf (map_set ev [h] (map_set ev [] (eventHandlers s)))"
    by (rule handlers_wf_map_set) (simp add: h)
  with None show ?thesis by (simp add: on_def Let_def handlers_of_def map_get_map_set)
next
  case (Some old)
  then have "\<forall>x \<in> set old. handler_wf ev x"
    using wf map_get_Some_mem [OF Some] unfolding handlers_wf_def by blast
  then have "handlers_wf (map_set ev (old @ [h]) (eventHandlers s))"
    using h by (intro handlers_wf_map_set [OF wf]) auto
  with Some show ?thesis by (simp add: on_def Let_def handlers_of_def)
qed

lemma handlers_wf_once:
  "handlers_wf (eventHandlers s) \<Longrightarrow> handlers_wf (eventHandlers (once ev cb s))"
  unfolding once_def by (rule handlers_wf_on) simp_all

lemma handlers_wf_off:
  assumes wf: "handlers_wf (eventHandlers s)"
  shows "handlers_wf (eventHandlers (off ev h s))"
proof (cases "h \<in> set (handlers_of s ev)")
  case False then show ?thesis using wf by (simp add: off_absent)
next
  case True
  then obtain hs where hs: "map_get (eventHandlers s) ev = Some hs" "h \<in> set hs"
    by (cases "map_get (eventHandlers s) ev") (auto simp: handlers_of_def)
  have "\<forall>x \<in> set hs. handler_wf ev x"
    using wf map_get_Some_mem [OF hs(1)] unfolding handlers_wf_def by blast
  then have "\<forall>x \<in> set (remove1 h hs). handler_wf ev x"
    by (meson notin_set_remove1)
  then have "handlers_wf (map_set ev (remove1 h hs) (eventHandlers s))"
    by (rule handlers_wf_map_set [OF wf])
  with hs show ?thesis by (simp add: off_def)
qed

lemma token_ok_cong:
  "consumeQueue s' = consumeQueue s \<Longrightarrow> consumerTransports s' = consumerTransports s \<Longrightarrow>
     token_ok s' tk = token_ok s tk"
  by (cases tk) (simp split: option.splits)

lemma one_negotiation_same:
  assumes "one_negotiation s" and "tokens s' = tokens s" and "consumeQueue s' = consumeQueue s"
    and "consumerTransports s' = consumerTransports s" and "handlers_wf (eventHandlers s')"
  shows "one_negotiation s'"
  using assms token_ok_cong [OF assms(3,4)] by (simp add: one_negotiation_def)

lemma one_negotiation_record_action [simp]:
  "one_negotiation (record_action a s) = one_negotiation s"
  by (simp add: one_negotiation_def token_ok_cong [of "record_action a s" s])

lemma one_negotiation_send [simp]: "one_negotiation (send m s) = one_negotiation s"
  by (simp add: send_def)

text \<open>registering a handler that continues no negotiation\<close>
lemma one_negotiation_on:
  "one_negotiation s \<Longrightarrow> handler_tokens h = {#} \<Longrightarrow> handler_wf ev h \<Longrightarrow> one_negotiation (on ev h s)"
  by (rule one_negotiation_same [of s]) (simp_all add: tokens_on handlers_wf_on one_negotiation_def)

lemma one_negotiation_once:
  "one_negotiation s \<Longrightarrow> callback_tokens cb = {#} \<Longrightarrow> one_negotiation (once ev cb s)"
  by (rule one_negotiation_same [of s]) (simp_all add: tokens_once handlers_wf_once one_negotiation_def)

text \<open>settling a call touches that call only\<close>
lemma settle_length [simp]: "length (consumeQueue (settle i r s)) = length (consumeQueue s)"
  by (simp add: settle_def record_action_def)

lemma settle_other: "j \<noteq> i \<Longrightarrow> consumeQueue (settle i r s) ! j = consumeQueue s ! j"
  by (simp add: settle_def record_action_def)

lemma settles_started:
  assumes "settles q q'" and "i < length q" and "cc_phase (q ! i) \<noteq> Queued"
  shows "i < length q'" and "cc_phase (q' ! i) \<noteq> Queued"
proof -
  from assms(1) have len: "length q' = length q" by (simp add: settles_def)
  with assms(2) show "i < length q'" by simp
  from assms(1,2) have "cc_phase (q' ! i) = cc_phase (q ! i)
      \<or> cc_phase (q ! i) = Running \<and> is_settled (cc_phase (q' ! i))"
    by (simp add: settles_def)
  then show "cc_phase (q' ! i) \<noteq> Queued"
  proof
    assume "cc_phase (q' ! i) = cc_phase (q ! i)"
    with assms(3) show ?thesis by simp
  next
    assume "cc_phase (q ! i) = Running \<and> is_settled (cc_phase (q' ! i))"
    then show ?thesis by (auto simp: is_settled_def)
  qed
qed

lemma no_creating:
  "filter_mset creating M = {#} \<Longrightarrow> Token i (Some k) \<notin># M"
  by auto

lemma creating_cases: "creating tk = (\<exists>i k. tk = Token i (Some k))"
  by (cases tk) auto

lemma one_negotiation_token_ok: "one_negotiation s \<Longrightarrow> tk \<in># tokens s \<Longrightarrow> token_ok s tk"
  unfolding one_negotiation_def by blast

text \<open>
  continuations may go away and calls may settle, as long as the calls whose transport is
  being created stay in flight
\<close>
lemma one_negotiation_sub:
  assumes inv: "one_negotiation s" and sub: "tokens s' \<subseteq># tokens s"
    and st: "settles (consumeQueue s) (consumeQueue s')"
    and cts: "consumerTransports s' = consumerTransports s"
    and wf: "handlers_wf (eventHandlers s')"
    and run: "\<And>i k. Token i (Some k) \<in># tokens s' \<Longrightarrow> cc_phase (consumeQueue s' ! i) = Running"
  shows "one_negotiation s'"
proof -
  from inv have f: "fifo (map cc_phase (consumeQueue s))"
    and c: "size (filter_mset creating (tokens s)) \<le> 1"
    and x: "exclusive (tokens s)"
    and t: "\<forall>tk \<in># tokens s. token_ok s tk"
    and d: "distinct (map_keys (consumerTransports s))"
    by (simp_all add: one_negotiation_def)
  have mem: "tk \<in># tokens s" if "tk \<in># tokens s'" for tk
    using sub that by (rule mset_subset_eqD)
  have 1: "fifo (map cc_phase (consumeQueue s'))" by (rule fifo_settles [OF st f])
  have "size (filter_mset creating (tokens s')) \<le> size (filter_mset creating (tokens s))"
    by (rule size_mset_mono) (rule multiset_filter_mono [OF sub])
  with c have 2: "size (filter_mset creating (tokens s')) \<le> 1" by simp
  have 3: "exclusive (tokens s')"
    unfolding exclusive_def
  proof (intro allI impI)
    fix i k assume "Token i (Some k) \<in># tokens s'"
    then have "Token i (Some k) \<in># tokens s" by (rule mem)
    with x have "Token i None \<notin># tokens s" unfolding exclusive_def by blast
    then show "Token i None \<notin># tokens s'" using mem by blast
  qed
  have 4: "token_ok s' tk" if m: "tk \<in># tokens s'" for tk
  proof -
    from m have "tk \<in># tokens s" by (rule mem)
    with t have ok: "token_ok s tk" by blast
    obtain i key where tk: "tk = Token i key" by (cases tk)
    show ?thesis
    proof (cases key)
      case None
      with ok tk have "i < length (consumeQueue s)" "cc_phase (consumeQueue s ! i) \<noteq> Queued"
        by simp_all
      from settles_started [OF st this] show ?thesis by (simp add: tk None)
    next
      case (Some k)
      with ok tk have i: "i < length (consumeQueue s)"
        and free: "map_get (consumerTransports s) k = None" by simp_all
      from st i have "i < length (consumeQueue s')" by (simp add: settles_def)
      moreover have "cc_phase (consumeQueue s' ! i) = Running" using m by (simp add: tk Some run)
      ultimately show ?thesis using free by (simp add: tk Some cts)
    qed
  qed
  from 1 2 3 4 wf d show ?thesis by (simp add: one_negotiation_def cts)
qed

text \<open>taking continuations away\<close>
lemma one_negotiation_take:
  assumes inv: "one_negotiation s" and t: "tokens s' + M = tokens s"
    and q: "consumeQueue s' = consumeQueue s"
    and cts: "consumerTransports s' = consumerTransports s"
    and h: "eventHandlers s' = eventHandlers s"
  shows "one_negotiation s'"
proof (rule one_negotiation_sub [OF inv])
  show sub: "tokens s' \<subseteq># tokens s" by (simp add: t [symmetric])
  show "settles (consumeQueue s) (consumeQueue s')" by (simp add: q settles_refl)
  show "consumerTransports s' = consumerTransports s" by (rule cts)
  show "handlers_wf (eventHandlers s')" using inv by (simp add: h one_negotiation_def)
  fix i k assume "Token i (Some k) \<in># tokens s'"
  with sub have "Token i (Some k) \<in># tokens s" by (rule mset_subset_eqD)
  with inv have "token_ok s (Token i (Some k))" by (rule one_negotiation_token_ok)
  then show "cc_phase (consumeQueue s' ! i) = Running" by (simp add: q)
qed

text \<open>a call whose transport is not being created may settle\<close>
lemma one_negotiation_settle:
  assumes inv: "one_negotiation s" and no: "\<And>k. Token i (Some k) \<notin># tokens s"
  shows "one_negotiation (settle i r s)"
proof (rule one_negotiation_sub [OF inv])
  show "tokens (settle i r s) \<subseteq># tokens s" by simp
  show "settles (consumeQueue s) (consumeQueue (settle i r s))" by (rule settles_settle)
  show "consumerTransports (settle i r s) = consumerTransports s" by simp
  show "handlers_wf (eventHandlers (settle i r s))" using inv by (simp add: one_negotiation_def)
  fix j k assume "Token j (Some k) \<in># tokens (settle i r s)"
  then have m: "Token j (Some k) \<in># tokens s" by simp
  with no have "j \<noteq> i" by auto
  moreover from inv m have "token_ok s (Token j (Some k))" by (rule one_negotiation_token_ok)
  ultimately show "cc_phase (consumeQueue (settle i r s) ! j) = Running"
    by (simp add: settle_other)
qed

text \<open>registering the handler of \<^verbatim>\<open>_consumeTrack\<close> for a call that has started\<close>
lemma one_negotiation_add_consuming:
  assumes inv: "one_negotiation s" and i: "i < length (consumeQueue s)"
    and ph: "cc_phase (consumeQueue s ! i) \<noteq> Queued"
    and no: "\<And>k. Token i (Some k) \<notin># tokens s"
  shows "one_negotiation (once ev (On_consumed i t) s)"
proof -
  let ?s' = "once ev (On_consumed i t) s"
  have tk: "tokens ?s' = tokens s + {#Token i None#}" by (simp add: tokens_once)
  have ok: "token_ok ?s' tk = token_ok s tk" for tk by (rule token_ok_cong) simp_all
  from inv have x: "exclusive (tokens s)" by (simp add: one_negotiation_def)
  have "exclusive (tokens ?s')"
    unfolding exclusive_def tk using x no by (auto simp: exclusive_def)
  moreover have "token_ok s (Token i None)" using i ph by simp
  ultimately show ?thesis
    using inv by (simp add: one_negotiation_def tk ok handlers_wf_once)
qed

text \<open>registering the handler of \<^verbatim>\<open>createConsumerTransport\<close> when no transport is being created\<close>
lemma one_negotiation_add_creating:
  assumes inv: "one_negotiation s" and none: "filter_mset creating (tokens s) = {#}"
    and i: "i < length (consumeQueue s)" and ph: "cc_phase (consumeQueue s ! i) = Running"
    and free: "map_get (consumerTransports s) key = None"
    and no: "Token i None \<notin># tokens s"
  shows "one_negotiation (once ev (On_consumerTransportCreated i key pr) s)"
proof -
  let ?s' = "once ev (On_consumerTransportCreated i key pr) s"
  have tk: "tokens ?s' = tokens s + {#Token i (Some key)#}" by (simp add: tokens_once)
  have ok: "token_ok ?s' tk = token_ok s tk" for tk by (rule token_ok_cong) simp_all
  have "exclusive (tokens ?s')"
    unfolding exclusive_def tk using no no_creating [OF none] by auto
  moreover have "token_ok s (Token i (Some key))" using i ph free by simp
  ultimately show ?thesis
    using inv none by (simp add: one_negotiation_def tk ok handlers_wf_once)
qed

lemma tokens_microtasks_snoc:
  "tokens (s\<lparr>microtasks := microtasks s @ [m]\<rparr>) = tokens s + microtask_tokens m"
  by (simp add: tokens_def)

lemma tokens_engine_ops_snoc:
  "tokens (s\<lparr>engine_ops := engine_ops s @ [op]\<rparr>) = tokens s + op_tokens op"
  by (simp add: tokens_def)

lemma notoken_callback:
  assumes "callback_tokens cb = {#}"
  shows "tokens (call_callback cb args s) = tokens s"
    and "consumeQueue (call_callback cb args s) = consumeQueue s"
  using assms
  by (cases cb; simp add: setupProducerTransport_def tokens_microtasks_snoc
        split: sum.splits payload.splits if_splits)+

text \<open>a callback that continues a negotiation hands it on, drops it or settles the call\<close>
lemma token_callback:
  assumes "callback_tokens cb = {#tk#}"
  shows "tokens (call_callback cb args s) = tokens s + {#tk#}
           \<and> consumeQueue (call_callback cb args s) = consumeQueue s
         \<or> tokens (call_callback cb args s) = tokens s
           \<and> (consumeQueue (call_callback cb args s) = consumeQueue s
              \<or> (\<exists>i r. tk = Token i None
                    \<and> consumeQueue (call_callback cb args s) = consumeQueue (settle i r s)))"
proof (cases cb)
  case (On_consumerTransportCreated i key pr)
  with assms have tk: "tk = Token i (Some key)" by simp
  show ?thesis
  proof (cases "setupConsumerTransport args s")
    case (Inl e)
    then show ?thesis using On_consumerTransportCreated by simp
  next
    case (Inr p)
    obtain t s' where p: "p = (t, s')" by (cases p)
    with Inr have "tokens s' = tokens s" "consumeQueue s' = consumeQueue s"
      by (auto simp: setupConsumerTransport_def split: if_splits payload.splits)
    then show ?thesis using On_consumerTransportCreated Inr p tk
      by (simp add: tokens_microtasks_snoc)
  qed
next
  case (On_consumed i t)
  with assms have tk: "tk = Token i None" by simp
  show ?thesis
  proof (cases args)
    case (Consumed_args cd)
    then show ?thesis using On_consumed tk by (simp add: tokens_engine_ops_snoc)
  qed (use On_consumed tk in auto)
qed (use assms in simp_all)

lemma callback_tokens_cases:
  "callback_tokens cb = {#} \<or> (\<exists>tk. callback_tokens cb = {#tk#})"
  by (cases cb) simp_all

lemma handlers_of_call_callback [simp]:
  "handlers_of (call_callback cb args s) ev = handlers_of s ev"
  by (simp add: handlers_of_def call_callback_frame)

lemma one_negotiation_call_handler:
  assumes inv: "one_negotiation s" and h: "h \<in> set (handlers_of s ev)"
  shows "one_negotiation (call_handler h args s)"
proof -
  from inv have wf: "handlers_wf (eventHandlers s)" by (simp add: one_negotiation_def)
  have hwf: "handler_wf ev h" by (rule handlers_of_wf [OF wf h])
  show ?thesis
  proof (cases h)
    case (Plain cb)
    with hwf have nt: "callback_tokens cb = {#}" by simp
    have "one_negotiation (call_callback cb args s)"
    proof (rule one_negotiation_same [OF inv])
      show "tokens (call_callback cb args s) = tokens s" by (rule notoken_callback [OF nt])
      show "consumeQueue (call_callback cb args s) = consumeQueue s" by (rule notoken_callback [OF nt])
      show "consumerTransports (call_callback cb args s) = consumerTransports s"
        by (rule call_callback_frame)
      show "handlers_wf (eventHandlers (call_callback cb args s))"
        using wf by (simp only: call_callback_frame)
    qed
    then show ?thesis by (simp only: Plain call_handler.simps)
  next
    case (Once_wrapper w ev' cb)
    with hwf have ev: "ev' = ev" by simp
    let ?s1 = "call_callback cb args s"
    let ?s2 = "off ev h ?s1"
    have s2: "call_handler h args s = ?s2" by (simp only: Once_wrapper ev call_handler.simps)
    have "h \<in> set (handlers_of ?s1 ev)" using h by (simp only: handlers_of_call_callback)
    then have "tokens ?s2 + handler_tokens h = tokens ?s1" by (rule tokens_off)
    then have off: "tokens ?s2 + callback_tokens cb = tokens ?s1"
      by (simp only: Once_wrapper handler_tokens.simps)
    have wf1: "handlers_wf (eventHandlers ?s1)" using wf by (simp only: call_callback_frame)
    have wf2: "handlers_wf (eventHandlers ?s2)" by (rule handlers_wf_off [OF wf1])
    have cts2: "consumerTransports ?s2 = consumerTransports s"
      by (simp only: cts_frame call_callback_frame)
    have q2: "consumeQueue ?s2 = consumeQueue ?s1" by (simp only: queue_frame)
    from callback_tokens_cases [of cb] have "one_negotiation ?s2"
    proof
      assume nt: "callback_tokens cb = {#}"
      show ?thesis
      proof (rule one_negotiation_same [OF inv])
        show "tokens ?s2 = tokens s" using off nt notoken_callback(1) [OF nt, of args s] by simp
        show "consumeQueue ?s2 = consumeQueue s"
          using q2 notoken_callback(2) [OF nt, of args s] by simp
      qed (rule cts2, rule wf2)
    next
      assume "\<exists>tk. callback_tokens cb = {#tk#}"
      then obtain tk where tk: "callback_tokens cb = {#tk#}" ..
      have "handler_tokens h \<subseteq># tokens s" by (rule handler_tokens_sub [OF h])
      then have "{#tk#} \<subseteq># tokens s" by (simp only: Once_wrapper handler_tokens.simps tk)
      then have tkin: "tk \<in># tokens s" by simp
      from token_callback [OF tk, of args s] show ?thesis
      proof
        assume a: "tokens ?s1 = tokens s + {#tk#} \<and> consumeQueue ?s1 = consumeQueue s"
        show ?thesis
        proof (rule one_negotiation_same [OF inv])
          from off tk a have "tokens ?s2 + {#tk#} = tokens s + {#tk#}" by simp
          then show "tokens ?s2 = tokens s" by (simp only: add_right_cancel)
          show "consumeQueue ?s2 = consumeQueue s" using q2 a by simp
        qed (rule cts2, rule wf2)
      next
        assume b: "tokens ?s1 = tokens s
          \<and> (consumeQueue ?s1 = consumeQueue s
             \<or> (\<exists>i r. tk = Token i None \<and> consumeQueue ?s1 = consumeQueue (settle i r s)))"
        from off tk b have e: "tokens ?s2 + {#tk#} = tokens s" by simp
        then have sub: "tokens ?s2 \<subseteq># tokens s" by (metis mset_subset_eq_add_left)
        show ?thesis
        proof (rule one_negotiation_sub [OF inv sub _ cts2 wf2])
          have "settles (consumeQueue s) (consumeQueue ?s1)" by (rule settles_call_callback)
          then show "settles (consumeQueue s) (consumeQueue ?s2)" by (simp only: q2)
        next
          fix j k assume "Token j (Some k) \<in># tokens ?s2"
          with sub have m: "Token j (Some k) \<in># tokens s" by (rule mset_subset_eqD)
          with inv have "token_ok s (Token j (Some k))" by (rule one_negotiation_token_ok)
          then have r: "cc_phase (consumeQueue s ! j) = Running" by simp
          from b have "consumeQueue ?s1 = consumeQueue s
             \<or> (\<exists>i r. tk = Token i None \<and> consumeQueue ?s1 = consumeQueue (settle i r s))" by simp
          then have "cc_phase (consumeQueue ?s1 ! j) = Running"
          proof
            assume "consumeQueue ?s1 = consumeQueue s" with r show ?thesis by simp
          next
            assume "\<exists>i r. tk = Token i None \<and> consumeQueue ?s1 = consumeQueue (settle i r s)"
            then obtain i r' where i: "tk = Token i None"
              and q: "consumeQueue ?s1 = consumeQueue (settle i r' s)" by blast
            from inv have "exclusive (tokens s)" by (simp add: one_negotiation_def)
            with m have "Token j None \<notin># tokens s" unfolding exclusive_def by blast
            with tkin i have "j \<noteq> i" by auto
            then show ?thesis using r by (simp add: q settle_other)
          qed
          then show "cc_phase (consumeQueue ?s2 ! j) = Running" by (simp only: q2)
        qed
      qed
    qed
    then show ?thesis by (simp only: s2)
  qed
qed

lemma one_negotiation_emit:
  assumes "one_negotiation s"
  shows "one_negotiation (emit ev args s)"
proof (rule emit_preserves)
  fix k and s' :: client
  assume "one_negotiation s'" and "k < length (handlers_of s' ev)"
  then show "one_negotiation (call_handler (handlers_of s' ev ! k) args s')"
    by (intro one_negotiation_call_handler [where ev = ev] nth_mem)
next
  show "one_negotiation (record_action (Emitted ev args) s)" using assms by simp
qed

lemma token_ok_updates [simp]:
  "token_ok (s\<lparr>trace := x1\<rparr>) tk = token_ok s tk"
  "token_ok (s\<lparr>producers := x4\<rparr>) tk = token_ok s tk"
  "token_ok (s\<lparr>consumers := x5\<rparr>) tk = token_ok s tk"
  "token_ok (s\<lparr>fresh := x6\<rparr>) tk = token_ok s tk"
  "token_ok (s\<lparr>producerTransport := x7\<rparr>) tk = token_ok s tk"
  "token_ok (s\<lparr>pendingExistingProducers := x8\<rparr>) tk = token_ok s tk"
  "token_ok (s\<lparr>device := x9\<rparr>) tk = token_ok s tk"
  "token_ok (s\<lparr>ws := x10\<rparr>) tk = token_ok s tk"
  "token_ok (s\<lparr>onopen_join := x11\<rparr>) tk = token_ok s tk"
  "token_ok (s\<lparr>microtasks := x12\<rparr>) tk = token_ok s tk"
  "token_ok (s\<lparr>engine_ops := x13\<rparr>) tk = token_ok s tk"
  "token_ok (s\<lparr>eventHandlers := x14\<rparr>) tk = token_ok s tk"
  "token_ok (s\<lparr>loaded := x15\<rparr>) tk = token_ok s tk"
  "token_ok (s\<lparr>engine_consumers := x16\<rparr>) tk = token_ok s tk"
  by (cases tk; simp split: option.splits)+

lemma one_negotiation_updates [simp]:
  "one_negotiation (s\<lparr>trace := x1\<rparr>) = one_negotiation s"
  "one_negotiation (s\<lparr>producers := x4\<rparr>) = one_negotiation s"
  "one_negotiation (s\<lparr>consumers := x5\<rparr>) = one_negotiation s"
  "one_negotiation (s\<lparr>fresh := x6\<rparr>) = one_negotiation s"
  "one_negotiation (s\<lparr>producerTransport := x7\<rparr>) = one_negotiation s"
  "one_negotiation (s\<lparr>pendingExistingProducers := x8\<rparr>) = one_negotiation s"
  "one_negotiation (s\<lparr>device := x9\<rparr>) = one_negotiation s"
  "one_negotiation (s\<lparr>ws := x10\<rparr>) = one_negotiation s"
  "one_negotiation (s\<lparr>onopen_join := x11\<rparr>) = one_negotiation s"
  "one_negotiation (s\<lparr>loaded := x15\<rparr>) = one_negotiation s"
  "one_negotiation (s\<lparr>engine_consumers := x16\<rparr>) = one_negotiation s"
  by (simp_all add: one_negotiation_def)

lemma one_negotiation_frame:
  assumes "one_negotiation s" and "tokens s' = tokens s" and "consumeQueue s' = consumeQueue s"
    and "consumerTransports s' = consumerTransports s" and "eventHandlers s' = eventHandlers s"
  shows "one_negotiation s'"
  using assms by (intro one_negotiation_same [of s s']) (simp_all add: one_negotiation_def)

lemma one_negotiation_add_task:
  "one_negotiation s \<Longrightarrow> microtask_tokens m = {#} \<Longrightarrow>
     one_negotiation (s\<lparr>microtasks := microtasks s @ [m]\<rparr>)"
  by (rule one_negotiation_same [of s]) (simp_all add: tokens_microtasks_snoc one_negotiation_def)

lemma one_negotiation_add_op:
  "one_negotiation s \<Longrightarrow> op_tokens op = {#} \<Longrightarrow>
     one_negotiation (s\<lparr>engine_ops := engine_ops s @ [op]\<rparr>)"
  by (rule one_negotiation_same [of s]) (simp_all add: tokens_engine_ops_snoc one_negotiation_def)

lemma one_negotiation_emit_newProducers:
  "one_negotiation s \<Longrightarrow> one_negotiation (emit_newProducers ps s)"
  by (induction ps arbitrary: s) (simp_all add: one_negotiation_emit)

lemma one_negotiation_loaded:
  "one_negotiation s \<Longrightarrow> one_negotiation (handleRtpCapabilities_loaded s)"
  by (simp add: handleRtpCapabilities_loaded_def Let_def one_negotiation_emit_newProducers)

lemma one_negotiation_produceTrack_resume:
  "one_negotiation s \<Longrightarrow> one_negotiation (produceTrack_resume tr s)"
  by (simp add: produceTrack_resume_def one_negotiation_add_op split: option.splits)

lemma one_negotiation_produceTrack:
  "one_negotiation s \<Longrightarrow> one_negotiation (produceTrack tr s)"
  by (simp add: produceTrack_def createProducerTransport_def one_negotiation_once
      one_negotiation_produceTrack_resume)

lemma one_negotiation_connect: "one_negotiation s \<Longrightarrow> one_negotiation (connect s)"
  by (simp add: connect_def joinRoom_def)

lemma one_negotiation_transport:
  "one_negotiation s \<Longrightarrow> one_negotiation (transport_connect t c s)"
  "one_negotiation s \<Longrightarrow> one_negotiation (transport_produce t kind c s)"
  by (simp_all add: transport_connect_def transport_produce_def one_negotiation_once)

text \<open>closing or forgetting transports\<close>
lemma one_negotiation_drop_transports:
  assumes inv: "one_negotiation s"
    and d: "distinct (map_keys m)"
    and sub: "\<And>k. map_get (consumerTransports s) k = None \<Longrightarrow> map_get m k = None"
  shows "one_negotiation (s\<lparr>consumerTransports := m\<rparr>)"
proof -
  have "token_ok (s\<lparr>consumerTransports := m\<rparr>) tk" if "token_ok s tk" for tk
    using that sub by (cases tk) (auto split: option.splits)
  with inv d show ?thesis by (simp add: one_negotiation_def)
qed

lemma tokens_disconnect [simp]: "tokens (disconnect s) = tokens s"
  by (simp add: tokens_def disconnect_fields)

lemma one_negotiation_disconnect: "one_negotiation s \<Longrightarrow> one_negotiation (disconnect s)"
proof -
  assume inv: "one_negotiation s"
  have "one_negotiation (s\<lparr>consumerTransports := []\<rparr>)"
    by (rule one_negotiation_drop_transports [OF inv]) (simp_all add: map_keys_def)
  then show ?thesis
    by (rule one_negotiation_frame) (simp_all add: disconnect_fields tokens_def)
qed

lemma one_negotiation_participantLeft:
  "one_negotiation s \<Longrightarrow> one_negotiation (handleParticipantLeft pid s)"
proof -
  assume inv: "one_negotiation s"
  then have d: "distinct (map_keys (consumerTransports s))" by (simp add: one_negotiation_def)
  have 1: "one_negotiation (s\<lparr>consumerTransports := map_delete pid (consumerTransports s)\<rparr>)"
    by (rule one_negotiation_drop_transports [OF inv distinct_map_delete [OF d]])
       (rule map_get_delete_other)
  have "one_negotiation ((record_action (Closed_transport t) s)
      \<lparr>consumerTransports := map_delete pid (consumerTransports s)\<rparr>)" for t
    by (rule one_negotiation_frame [OF 1]) (simp_all add: record_action_def tokens_def)
  with inv show ?thesis
    by (simp add: handleParticipantLeft_def one_negotiation_emit split: option.splits)
qed

lemma one_negotiation_handleRtpCapabilities:
  "one_negotiation s \<Longrightarrow> one_negotiation (handleRtpCapabilities s)"
  by (rule one_negotiation_frame [of s]) (simp_all add: handleRtpCapabilities_def tokens_def)

lemma one_negotiation_onmessage: "one_negotiation s \<Longrightarrow> one_negotiation (onmessage m s)"
  by (cases m)
     (simp_all add: onmessage_def Let_def one_negotiation_emit one_negotiation_participantLeft
        one_negotiation_handleRtpCapabilities split: option.splits)

lemma one_negotiation_consumeTrack: "one_negotiation s \<Longrightarrow> one_negotiation (consumeTrack pp pr s)"
proof -
  assume inv: "one_negotiation s"
  let ?s' = "consumeTrack pp pr s"
  have q: "consumeQueue ?s' = consumeQueue s @ [\<lparr>cc_participant = pp, cc_producer = pr, cc_phase = Queued\<rparr>]"
    by (simp add: consumeTrack_def)
  have t: "tokens ?s' = tokens s" by (simp add: consumeTrack_def)
  have "token_ok ?s' tk" if "token_ok s tk" for tk
    using that by (cases tk) (auto simp: consumeTrack_def nth_append split: option.splits)
  moreover have "fifo (map cc_phase (consumeQueue ?s'))"
    using inv fifo_append_Queued [of "map cc_phase (consumeQueue s)"]
    by (simp add: q one_negotiation_def)
  ultimately show ?thesis
    using inv by (simp add: one_negotiation_def t) (simp add: consumeTrack_def)
qed

lemma startable_no_running:
  assumes f: "fifo (map cc_phase q)" and i: "i < length q" and qd: "cc_phase (q ! i) = Queued"
    and pred: "i = 0 \<or> is_settled (cc_phase (q ! (i - 1)))" and j: "j < length q"
  shows "cc_phase (q ! j) \<noteq> Running"
proof (cases "j < i")
  case True
  then have i0: "i \<noteq> 0" by simp
  with pred have p: "is_settled (cc_phase (q ! (i - 1)))" by simp
  have "is_settled (cc_phase (q ! j))"
  proof (cases "j = i - 1")
    case True with p show ?thesis by simp
  next
    case False
    with \<open>j < i\<close> have "j < i - 1" by simp
    moreover have "i - 1 < length (map cc_phase q)" using i by simp
    moreover have "map cc_phase q ! (i - 1) \<noteq> Queued" using p i by auto
    ultimately have "is_settled (map cc_phase q ! j)" using f unfolding fifo_def by blast
    then show ?thesis using j by simp
  qed
  then show ?thesis by auto
next
  case False
  show ?thesis
  proof (cases "j = i")
    case True with qd show ?thesis by simp
  next
    case False
    with \<open>\<not> j < i\<close> have ij: "i < j" by simp
    show ?thesis
    proof
      assume r: "cc_phase (q ! j) = Running"
      then have "map cc_phase q ! j \<noteq> Queued" using j by simp
      moreover from f have "i < j \<and> j < length (map cc_phase q) \<and> map cc_phase q ! j \<noteq> Queued
          \<longrightarrow> is_settled (map cc_phase q ! i)" unfolding fifo_def by blast
      ultimately have "is_settled (map cc_phase q ! i)" using ij j by simp
      with qd i show False by simp
    qed
  qed
qed

lemma startable_no_creating:
  assumes inv: "one_negotiation s" and st: "startable s i"
  shows "filter_mset creating (tokens s) = {#}"
  unfolding filter_mset_eq_mempty_iff
proof (intro allI impI)
  fix tk assume m: "tk \<in># tokens s"
  show "\<not> creating tk"
  proof
    assume "creating tk"
    then obtain j k where tk: "tk = Token j (Some k)" by (auto simp: creating_cases)
    from inv m have "token_ok s tk" by (rule one_negotiation_token_ok)
    with tk have j: "j < length (consumeQueue s)" and r: "cc_phase (consumeQueue s ! j) = Running"
      by simp_all
    from inv have f: "fifo (map cc_phase (consumeQueue s))" by (simp add: one_negotiation_def)
    from st have "cc_phase (consumeQueue s ! j) \<noteq> Running"
      unfolding startable_def
      by (intro startable_no_running [where i = i and j = j, OF f _ _ _ j]) simp_all
    with r show False by simp
  qed
qed

lemma startable_no_consuming:
  assumes inv: "one_negotiation s" and st: "startable s i"
  shows "Token i None \<notin># tokens s"
proof
  assume "Token i None \<in># tokens s"
  with inv have "token_ok s (Token i None)" by (rule one_negotiation_token_ok)
  with st show False by (simp add: startable_def)
qed

text \<open>a call leaves the queue\<close>
lemma one_negotiation_started:
  assumes inv: "one_negotiation s" and st: "startable s i"
  shows "one_negotiation
           (s\<lparr>consumeQueue := (consumeQueue s)[i := (consumeQueue s ! i)\<lparr>cc_phase := Running\<rparr>]\<rparr>)"
proof -
  let ?q = "consumeQueue s"
  let ?s1 = "s\<lparr>consumeQueue := ?q[i := (?q ! i)\<lparr>cc_phase := Running\<rparr>]\<rparr>"
  from inv have f: "fifo (map cc_phase ?q)" by (simp add: one_negotiation_def)
  have f1: "fifo (map cc_phase (consumeQueue ?s1))"
    using fifo_start [OF f] st by (simp add: startable_def)
  have none: "filter_mset creating (tokens s) = {#}" by (rule startable_no_creating [OF inv st])
  have "token_ok ?s1 tk" if m: "tk \<in># tokens s" for tk
  proof -
    from inv m have ok: "token_ok s tk" by (rule one_negotiation_token_ok)
    obtain j key where tk: "tk = Token j key" by (cases tk)
    from m none have "\<not> creating tk" by simp
    with tk have key: "key = None" by simp
    from ok show ?thesis by (cases "j = i") (simp_all add: tk key)
  qed
  with inv f1 show ?thesis by (simp add: one_negotiation_def)
qed

lemma one_negotiation_consume_request:
  assumes inv: "one_negotiation s" and i: "i < length (consumeQueue s)"
    and ph: "cc_phase (consumeQueue s ! i) \<noteq> Queued"
    and no: "\<And>k. Token i (Some k) \<notin># tokens s"
  shows "one_negotiation (consume_request i pp pr t s)"
proof -
  let ?s1 = "once ''consumed'' (On_consumed i t) s"
  have 1: "one_negotiation ?s1" by (rule one_negotiation_add_consuming [OF inv i ph no])
  have "Token i (Some k) \<notin># tokens ?s1" for k using no [of k] by (simp add: tokens_once)
  then have "one_negotiation (settle i r ?s1)" for r by (rule one_negotiation_settle [OF 1])
  with 1 show ?thesis by (simp add: consume_request_def Let_def)
qed

lemma one_negotiation_queue_reaction:
  assumes inv: "one_negotiation s"
  shows "one_negotiation (queue_reaction i s)"
proof (cases "startable s i")
  case False with inv show ?thesis by (simp add: queue_reaction_startable)
next
  case True
  let ?q = "consumeQueue s"
  let ?s1 = "s\<lparr>consumeQueue := ?q[i := (?q ! i)\<lparr>cc_phase := Running\<rparr>]\<rparr>"
  let ?pp = "cc_participant (?q ! i)" and ?pr = "cc_producer (?q ! i)"
  from True have i: "i < length (consumeQueue ?s1)" by (simp add: startable_def)
  then have r1: "cc_phase (consumeQueue ?s1 ! i) = Running" by simp
  have inv1: "one_negotiation ?s1" by (rule one_negotiation_started [OF inv True])
  have "filter_mset creating (tokens s) = {#}" by (rule startable_no_creating [OF inv True])
  then have none: "filter_mset creating (tokens ?s1) = {#}" by simp
  then have no: "Token i (Some k) \<notin># tokens ?s1" for k by (rule no_creating)
  have noc: "Token i None \<notin># tokens ?s1" using startable_no_consuming [OF inv True] by simp
  have "one_negotiation (consumeTrack' i ?pp ?pr ?s1)"
  proof (cases "device s = None")
    case True
    have "one_negotiation (settle i (Inl Device_not_initialized) ?s1)"
      by (rule one_negotiation_settle [OF inv1 no])
    with True show ?thesis by (simp add: consumeTrack'_def)
  next
    case False
    show ?thesis
    proof (cases "map_get (consumerTransports s) ?pp")
      case None
      then have free: "map_get (consumerTransports ?s1) ?pp = None" by simp
      have "one_negotiation (once ''consumerTransportCreated''
              (On_consumerTransportCreated i ?pp ?pr) ?s1)"
        by (rule one_negotiation_add_creating [OF inv1 none i r1 free noc])
      then have "one_negotiation (createConsumerTransport i ?pp ?pr ?s1)"
        by (simp add: createConsumerTransport_def)
      with False None show ?thesis by (auto simp add: consumeTrack'_def)
    next
      case (Some t)
      have "one_negotiation (consume_request i ?pp ?pr t ?s1)"
        by (rule one_negotiation_consume_request [OF inv1 i _ no]) (use r1 in simp)
      with False Some show ?thesis by (auto simp add: consumeTrack'_def)
    qed
  qed
  with True show ?thesis by (simp add: queue_reaction_startable)
qed

lemma sum_list_remove1_op:
  "op \<in> set ops \<Longrightarrow>
     sum_list (map op_tokens (remove1 op ops)) + op_tokens op = sum_list (map op_tokens ops)"
  by (induction ops) (auto simp: ac_simps)

lemma tokens_remove_op:
  "op \<in> set (engine_ops s) \<Longrightarrow>
     tokens (s\<lparr>engine_ops := remove1 op (engine_ops s)\<rparr>) + op_tokens op = tokens s"
  using sum_list_remove1_op [of op "engine_ops s"] by (simp add: tokens_def add.assoc)

lemma tokens_pop_task:
  "microtasks s = m # ms \<Longrightarrow> tokens (s\<lparr>microtasks := ms\<rparr>) + microtask_tokens m = tokens s"
  by (simp add: tokens_def ac_simps)

text \<open>storing a transport when none is being created\<close>
lemma one_negotiation_set_transport:
  assumes inv: "one_negotiation s" and none: "filter_mset creating (tokens s) = {#}"
  shows "one_negotiation (s\<lparr>consumerTransports := map_set key t (consumerTransports s)\<rparr>)"
proof -
  let ?s' = "s\<lparr>consumerTransports := map_set key t (consumerTransports s)\<rparr>"
  have "token_ok ?s' tk" if m: "tk \<in># tokens s" for tk
  proof -
    from inv m have ok: "token_ok s tk" by (rule one_negotiation_token_ok)
    obtain j k where tk: "tk = Token j k" by (cases tk)
    from m none have "\<not> creating tk" by simp
    with tk have "k = None" by simp
    with ok tk show ?thesis by simp
  qed
  moreover from inv have "distinct (map_keys (map_set key t (consumerTransports s)))"
    by (simp add: one_negotiation_def distinct_map_set)
  ultimately show ?thesis using inv by (simp add: one_negotiation_def)
qed

lemma one_negotiation_run_microtask:
  assumes inv: "one_negotiation s" and ms: "microtasks s = m # ms"
  shows "one_negotiation (run_microtask m (s\<lparr>microtasks := ms\<rparr>))"
proof -
  let ?s0 = "s\<lparr>microtasks := ms\<rparr>"
  have pop: "tokens ?s0 + microtask_tokens m = tokens s" by (rule tokens_pop_task [OF ms])
  have inv0: "one_negotiation ?s0" by (rule one_negotiation_take [OF inv pop]) simp_all
  show ?thesis
  proof (cases m)
    case (Resume_createProducerTransport tr)
    with inv0 show ?thesis by (simp add: one_negotiation_produceTrack_resume)
  next
    case (Resume_createConsumerTransport i key pr t)
    let ?s1 = "?s0\<lparr>consumerTransports := map_set key t (consumerTransports ?s0)\<rparr>"
    from pop have t: "tokens s = tokens ?s0 + {#Token i (Some key)#}"
      by (simp add: Resume_createConsumerTransport)
    from inv have "size (filter_mset creating (tokens s)) \<le> 1" by (simp add: one_negotiation_def)
    then have none: "filter_mset creating (tokens ?s0) = {#}" by (simp add: t)
    from inv have "token_ok s (Token i (Some key))"
      by (rule one_negotiation_token_ok) (simp add: t)
    then have i: "i < length (consumeQueue ?s1)" and r: "cc_phase (consumeQueue ?s1 ! i) \<noteq> Queued"
      by simp_all
    have inv1: "one_negotiation ?s1" by (rule one_negotiation_set_transport [OF inv0 none])
    have no: "Token i (Some k) \<notin># tokens ?s1" for k using no_creating [OF none] by simp
    have "one_negotiation (consume_request i key pr t ?s1)"
      by (rule one_negotiation_consume_request [OF inv1 i r no])
    then show ?thesis by (simp add: Resume_createConsumerTransport)
  qed
qed

lemma one_negotiation_engine_done:
  assumes inv: "one_negotiation s"
  shows "one_negotiation (engine_done op r s)"
proof (cases "op \<in> set (engine_ops s)")
  case False with inv show ?thesis by (simp add: engine_done_def)
next
  case True
  let ?s1 = "s\<lparr>engine_ops := remove1 op (engine_ops s)\<rparr>"
  have rem: "tokens ?s1 + op_tokens op = tokens s" by (rule tokens_remove_op [OF True])
  have inv1: "one_negotiation ?s1" by (rule one_negotiation_take [OF inv rem]) simp_all
  show ?thesis
  proof (cases op)
    case (Load_op dv)
    with inv1 show ?thesis using True
      by (simp add: engine_done_def Let_def one_negotiation_loaded)
  next
    case (Produce_op t tr)
    with inv1 show ?thesis using True
      by (simp add: engine_done_def Let_def produce_done_def split: engine_result.splits)
  next
    case (Consume_op i t cd)
    with rem have t: "tokens s = tokens ?s1 + {#Token i None#}" by simp
    from inv have "exclusive (tokens s)" by (simp add: one_negotiation_def)
    then have no: "Token i (Some k) \<notin># tokens ?s1" for k
      unfolding exclusive_def t by auto
    have 1: "one_negotiation (settle i x ?s1)" for x by (rule one_negotiation_settle [OF inv1 no])
    have 2: "one_negotiation (settle i x (?s1\<lparr>engine_consumers := ec, consumers := cs\<rparr>))"
      for x ec cs
      by (rule one_negotiation_settle) (use inv1 no in simp_all)
    have "one_negotiation (consume_done i t r ?s1)"
      unfolding consume_done_def using 1 2 by (simp split: engine_result.splits)
    then show ?thesis using True Consume_op by (simp add: engine_done_def Let_def)
  qed
qed

lemma one_negotiation_step: "one_negotiation s \<Longrightarrow> one_negotiation (step s e)"
proof (cases e)
  case (Call_on ev n)
  assume "one_negotiation s"
  then show ?thesis by (simp add: Call_on one_negotiation_on)
next
  case Run_microtask
  assume "one_negotiation s"
  then show ?thesis
    by (cases "microtasks s") (simp_all add: Run_microtask one_negotiation_run_microtask)
qed (simp_all add: one_negotiation_connect one_negotiation_produceTrack
      one_negotiation_consumeTrack one_negotiation_disconnect joinRoom_def
      one_negotiation_onmessage one_negotiation_queue_reaction one_negotiation_transport
      one_negotiation_engine_done)

lemma one_negotiation_constructor: "one_negotiation (constructor pid)"
  by (simp add: one_negotiation_def constructor_def fifo_def tokens_def map_tokens_def
      handlers_wf_def map_keys_def exclusive_def)

lemma one_negotiation_run: "one_negotiation (run (constructor pid) evs)"
proof (induction evs rule: rev_induct)
  case Nil show ?case by (simp add: run_def one_negotiation_constructor)
next
  case (snoc e evs) then show ?case by (simp only: run_snoc one_negotiation_step)
qed

lemma pending_transports_tokens:
  "size (sum_list (map microtask_tokens ms)) = length (pending_transports ms)"
  by (induction ms rule: pending_transports.induct) simp_all

lemma pending_transports_token:
  "(k, t) \<in> set (pending_transports ms) \<Longrightarrow>
     \<exists>i. Token i (Some k) \<in># sum_list (map microtask_tokens ms)"
  by (induction ms rule: pending_transports.induct) auto

lemma microtask_creating:
  "filter_mset creating (sum_list (map microtask_tokens ms)) = sum_list (map microtask_tokens ms)"
  by (induction ms rule: pending_transports.induct) simp_all

lemma one_negotiation_live:
  assumes inv: "one_negotiation s"
  shows "distinct (map_keys (live_transports s))"
proof -
  from inv have d: "distinct (map_keys (consumerTransports s))"
    and sz: "size (filter_mset creating (tokens s)) \<le> 1"
    by (simp_all add: one_negotiation_def)
  have "size (sum_list (map microtask_tokens (microtasks s)))
      \<le> size (filter_mset creating (tokens s))"
    by (simp add: tokens_def microtask_creating)
  with sz have len: "length (pending_transports (microtasks s)) \<le> 1"
    by (simp add: pending_transports_tokens)
  then have dp: "distinct (map_keys (pending_transports (microtasks s)))"
    by (cases "pending_transports (microtasks s)") (simp_all add: map_keys_def)
  have disj: "k \<notin> set (map_keys (consumerTransports s))"
    if "k \<in> set (map_keys (pending_transports (microtasks s)))" for k
  proof -
    from that obtain t where "(k, t) \<in> set (pending_transports (microtasks s))"
      by (auto simp: map_keys_def)
    then obtain i where "Token i (Some k) \<in># sum_list (map microtask_tokens (microtasks s))"
      using pending_transports_token by blast
    then have "Token i (Some k) \<in># tokens s" by (simp add: tokens_def)
    moreover from inv have "\<forall>tk \<in># tokens s. token_ok s tk" by (simp add: one_negotiation_def)
    ultimately have "token_ok s (Token i (Some k))" by blast
    then show ?thesis by (simp add: map_get_None_keys)
  qed
  show ?thesis
    using d dp disj by (auto simp: live_transports_def map_keys_def)
qed
section \<open>Creating and reusing a Consumer Transport\<close>


lemma handlers_of_on:
  "handlers_of (on ev h s) ev' = (if ev' = ev then handlers_of s ev @ [h] else handlers_of s ev')"
  by (auto simp: on_def handlers_of_def Let_def map_get_map_set split: option.splits)

lemma handlers_of_once:
  "handlers_of (once ev cb s) ev' =
     (if ev' = ev then handlers_of s ev @ [Once_wrapper (fresh s) ev cb] else handlers_of s ev')"
  by (simp add: once_def handlers_of_on) (simp add: handlers_of_def)

lemma handlers_of_off:
  "handlers_of (off ev h s) ev' = (if ev' = ev then remove1 h (handlers_of s ev) else handlers_of s ev')"
  by (auto simp: off_def handlers_of_def map_get_map_set remove1_idem split: option.splits)

lemma handlers_of_frame [simp]:
  "handlers_of (record_action a s) ev = handlers_of s ev"
  "handlers_of (send m s) ev = handlers_of s ev"
  "handlers_of (s\<lparr>consumeQueue := x1\<rparr>) ev = handlers_of s ev"
  "handlers_of (s\<lparr>microtasks := x2\<rparr>) ev = handlers_of s ev"
  "handlers_of (s\<lparr>fresh := x3\<rparr>) ev = handlers_of s ev"
  "handlers_of (s\<lparr>consumerTransports := x4\<rparr>) ev = handlers_of s ev"
  "handlers_of (s\<lparr>trace := x5\<rparr>) ev = handlers_of s ev"
  "handlers_of (settle i r s) ev = handlers_of s ev"
  by (simp_all add: handlers_of_def)

lemma device_loaded_frame [simp]:
  "device_loaded (record_action a s) = device_loaded s"
  "device_loaded (send m s) = device_loaded s"
  "device_loaded (on ev h s) = device_loaded s"
  "device_loaded (once ev cb s) = device_loaded s"
  "device_loaded (off ev h s) = device_loaded s"
  "device_loaded (settle i r s) = device_loaded s"
  "device_loaded (s\<lparr>consumeQueue := x1\<rparr>) = device_loaded s"
  "device_loaded (s\<lparr>microtasks := x2\<rparr>) = device_loaded s"
  "device_loaded (s\<lparr>fresh := x3\<rparr>) = device_loaded s"
  "device_loaded (s\<lparr>consumerTransports := x4\<rparr>) = device_loaded s"
  "device_loaded (s\<lparr>trace := x5\<rparr>) = device_loaded s"
  "device_loaded (s\<lparr>eventHandlers := x6\<rparr>) = device_loaded s"
  by (simp_all add: device_loaded_def record_action_def send_def on_def once_def off_def
        settle_def Let_def split: option.splits)

lemma device_loaded_device: "device_loaded s \<Longrightarrow> device s \<noteq> None"
  by (cases "device s") (simp_all add: device_loaded_def)

lemma once_frame [simp]:
  "trace (once ev cb s) = trace s"
  "ws (once ev cb s) = ws s"
  "participantId (once ev cb s) = participantId s"
  "microtasks (once ev cb s) = microtasks s"
  "fresh (once ev cb s) = Suc (fresh s)"
  "device (once ev cb s) = device s"
  by (simp_all add: once_def on_def Let_def)

lemma trace_send:
  "trace (send m s) = trace s @ (if ws s = Open then [Sent m] else [])"
  by (simp add: send_def record_action_def)

lemma trace_settle:
  "trace (settle i r s) =
     trace s @ (if i < length (consumeQueue s) \<and> cc_phase (consumeQueue s ! i) = Running
                then [Consume_resolved i (catch_null r)] else [])"
  by (simp add: settle_def record_action_def)

lemma send_frame [simp]:
  "microtasks (send m s) = microtasks s"
  "fresh (send m s) = fresh s"
  "device (send m s) = device s"
  "microtasks (record_action a s) = microtasks s"
  "fresh (record_action a s) = fresh s"
  "device (record_action a s) = device s"
  by (simp_all add: send_def record_action_def)

lemma emit_handlers_of:
  "emit ev args s =
     forEach ev args 0 (length (handlers_of s ev)) (record_action (Emitted ev args) s)"
  by (simp add: emit_def handlers_of_def Let_def split: option.splits)

text \<open>a call that finds the transport of its participant stored\<close>
lemma reuse_transport:
  assumes "startable s i" and "device s \<noteq> None"
    and "map_get (consumerTransports s) (cc_participant (consumeQueue s ! i)) = Some t"
  shows "step s (Queue_reaction i) =
     consume_request i (cc_participant (consumeQueue s ! i)) (cc_producer (consumeQueue s ! i)) t
       (s\<lparr>consumeQueue := (consumeQueue s)[i := (consumeQueue s ! i)\<lparr>cc_phase := Running\<rparr>]\<rparr>)"
  using assms by (auto simp: queue_reaction_startable consumeTrack'_def)

lemma consume_request_effect:
  "trace (consume_request i pp pr t s) =
     trace s @
       (if device_loaded s
        then (if ws s = Open then [Sent (Consume (participantId s) (tr_id t) pp pr)] else [])
        else (if i < length (consumeQueue s) \<and> cc_phase (consumeQueue s ! i) = Running
              then [Consume_resolved i None] else []))"
  "consumerTransports (consume_request i pp pr t s) = consumerTransports s"
  "microtasks (consume_request i pp pr t s) = microtasks s"
  "handlers_of (consume_request i pp pr t s) ''consumerTransportCreated'' =
     handlers_of s ''consumerTransportCreated''"
  by (simp_all add: consume_request_def handlers_of_once Let_def trace_send trace_settle
        catch_null_def settle_frame)

text \<open>a call that does not: the request, the reply, and the continuation\<close>
lemma create_transport:
  assumes st: "startable s i" and ld: "device_loaded s"
    and no: "map_get (consumerTransports s) (cc_participant (consumeQueue s ! i)) = None"
    and hs: "handlers_of s ''consumerTransportCreated'' = []" and ms: "microtasks s = []"
    and ok: "td_accepted td"
  shows "trace (step s (Queue_reaction i)) =
           trace s @ (if ws s = Open then [Sent (CreateConsumerTransport (participantId s))] else [])"
    and "map_get (consumerTransports
           (run s [Queue_reaction i, Ws_message (ConsumerTransportCreated td), Run_microtask]))
           (cc_participant (consumeQueue s ! i))
         = Some \<lparr>tr_obj = Suc (fresh s), tr_id = td_id td, tr_send = False\<rparr>"
proof -
  let ?q = "consumeQueue s"
  let ?pp = "cc_participant (?q ! i)" and ?pr = "cc_producer (?q ! i)"
  let ?s0 = "s\<lparr>consumeQueue := ?q[i := (?q ! i)\<lparr>cc_phase := Running\<rparr>]\<rparr>"
  let ?s1 = "createConsumerTransport i ?pp ?pr ?s0"
  let ?w = "Once_wrapper (fresh s) ''consumerTransportCreated'' (On_consumerTransportCreated i ?pp ?pr)"
  let ?t = "\<lparr>tr_obj = Suc (fresh s), tr_id = td_id td, tr_send = False\<rparr>"
  from ld have dv: "device s \<noteq> None" by (rule device_loaded_device)
  have q1: "queue_reaction i s = ?s1"
    using st dv no by (auto simp: queue_reaction_startable consumeTrack'_def)
  then have s1: "step s (Queue_reaction i) = ?s1" by simp
  show "trace (step s (Queue_reaction i)) =
           trace s @ (if ws s = Open then [Sent (CreateConsumerTransport (participantId s))] else [])"
    unfolding s1
    by (simp add: createConsumerTransport_def send_def record_action_def once_def on_def Let_def)
  have h1: "handlers_of ?s1 ''consumerTransportCreated'' = [?w]"
    by (simp add: createConsumerTransport_def handlers_of_once hs)
  have f1: "fresh ?s1 = Suc (fresh s)" and d1: "device ?s1 = device s"
    and m1: "microtasks ?s1 = []" and c1: "consumerTransports ?s1 = consumerTransports s"
    by (simp_all add: createConsumerTransport_def ms)
  have l1: "device_loaded ?s1" using ld by (simp add: createConsumerTransport_def)
  let ?s1' = "record_action (Emitted ''consumerTransportCreated'' (Transport_args td)) ?s1"
  let ?s2 = "onmessage (ConsumerTransportCreated td) ?s1"
  have "?s2 = call_handler ?w (Transport_args td) ?s1'"
    by (simp add: onmessage_def emit_handlers_of h1)
  also have "\<dots> = off ''consumerTransportCreated'' ?w
      (?s1'\<lparr>fresh := Suc (Suc (fresh s)),
             microtasks := [Resume_createConsumerTransport i ?pp ?pr ?t]\<rparr>)"
  proof -
    have "device ?s1' \<noteq> None" "device_loaded ?s1'" "fresh ?s1' = Suc (fresh s)"
      "microtasks ?s1' = []"
      using dv l1 by (simp_all add: d1 f1 m1)
    then have "setupConsumerTransport (Transport_args td) ?s1'
        = Inr (?t, ?s1'\<lparr>fresh := Suc (Suc (fresh s))\<rparr>)"
      using ok by (simp add: setupConsumerTransport_def)
    then show ?thesis
      using \<open>microtasks ?s1' = []\<close> by simp
  qed
  finally have s2: "?s2 = off ''consumerTransportCreated'' ?w
      (?s1'\<lparr>fresh := Suc (Suc (fresh s)),
             microtasks := [Resume_createConsumerTransport i ?pp ?pr ?t]\<rparr>)" .
  have m2: "microtasks ?s2 = [Resume_createConsumerTransport i ?pp ?pr ?t]"
    and c2: "consumerTransports ?s2 = consumerTransports s"
    unfolding s2 by (simp_all add: off_frame record_action_def c1)
  have c3: "consumerTransports (step ?s2 Run_microtask) = map_set ?pp ?t (consumerTransports s)"
    by (simp add: m2 consume_request_effect c2)
  have "map_get (consumerTransports (step ?s2 Run_microtask)) ?pp = Some ?t"
    unfolding c3 by (simp add: map_get_map_set)
  then show "map_get (consumerTransports
           (run s [Queue_reaction i, Ws_message (ConsumerTransportCreated td), Run_microtask])) ?pp
         = Some ?t"
    by (simp add: run_def q1)
qed

section \<open>Handles are registered under their own id\<close>


lemma reg_frame [simp]:
  "producers (record_action a s) = producers s" "consumers (record_action a s) = consumers s"
  "producers (send m s) = producers s" "consumers (send m s) = consumers s"
  "producers (on ev h s) = producers s" "consumers (on ev h s) = consumers s"
  "producers (once ev cb s) = producers s" "consumers (once ev cb s) = consumers s"
  "producers (settle i r s) = producers s" "consumers (settle i r s) = consumers s"
  by (simp_all add: record_action_def send_def on_def once_def settle_frame Let_def)

lemma reg_emit_newProducers [simp]:
  "producers (emit_newProducers ps s) = producers s"
  "consumers (emit_newProducers ps s) = consumers s"
  by (induction ps arbitrary: s) (simp_all add: emit_frame)

lemma reg_onmessage [simp]:
  "producers (onmessage m s) = producers s" "consumers (onmessage m s) = consumers s"
  by (cases m; simp add: onmessage_def Let_def emit_frame handleRtpCapabilities_def
        handleParticipantLeft_def split: option.splits)+

lemma reg_produceTrack [simp]:
  "producers (produceTrack tr s) = producers s" "consumers (produceTrack tr s) = consumers s"
  "producers (produceTrack_resume tr s) = producers s"
  "consumers (produceTrack_resume tr s) = consumers s"
  by (simp_all add: produceTrack_def produceTrack_resume_def createProducerTransport_def
        split: option.splits)

lemma reg_queue_reaction [simp]:
  "producers (queue_reaction i s) = producers s" "consumers (queue_reaction i s) = consumers s"
  by (simp_all add: queue_reaction_def Let_def consumeTrack'_def consume_request_def
        createConsumerTransport_def split: option.splits)

lemma reg_misc [simp]:
  "producers (connect s) = producers s" "consumers (connect s) = consumers s"
  "producers (consumeTrack pp pr s) = producers s" "consumers (consumeTrack pp pr s) = consumers s"
  "producers (transport_connect t c s) = producers s"
  "consumers (transport_connect t c s) = consumers s"
  "producers (transport_produce t kind c s) = producers s"
  "consumers (transport_produce t kind c s) = consumers s"
  "producers (run_microtask mt s) = producers s" "consumers (run_microtask mt s) = consumers s"
  by (cases mt; simp add: connect_def joinRoom_def consumeTrack_def transport_connect_def
        transport_produce_def consume_request_def Let_def)+

lemma reg_loaded [simp]:
  "producers (handleRtpCapabilities_loaded s) = producers s"
  "consumers (handleRtpCapabilities_loaded s) = consumers s"
  by (simp_all add: handleRtpCapabilities_loaded_def Let_def)

lemma by_id_map_set:
  assumes "\<forall>(k, v) \<in> set m. k = f v"
  shows "\<forall>(k, v) \<in> set (map_set (f x) x m). k = f v"
  using assms set_map_set [of "f x" x m] by blast

lemma registered_by_id_updates [simp]:
  "registered_by_id (s\<lparr>engine_ops := x1\<rparr>) = registered_by_id s"
  "registered_by_id (s\<lparr>trace := x2\<rparr>) = registered_by_id s"
  "registered_by_id (s\<lparr>ws := x3\<rparr>) = registered_by_id s"
  "registered_by_id (s\<lparr>microtasks := x4\<rparr>) = registered_by_id s"
  "registered_by_id (s\<lparr>loaded := x5\<rparr>) = registered_by_id s"
  "registered_by_id (s\<lparr>engine_consumers := x6\<rparr>) = registered_by_id s"
  by (simp_all add: registered_by_id_def)

lemma registered_by_id_frame:
  "registered_by_id s \<Longrightarrow> producers s' = producers s \<Longrightarrow> consumers s' = consumers s \<Longrightarrow>
     registered_by_id s'"
  by (simp add: registered_by_id_def)

lemma registered_by_id_engine_done:
  assumes inv: "registered_by_id s"
  shows "registered_by_id (engine_done op r s)"
proof (cases "op \<in> set (engine_ops s)")
  case False with inv show ?thesis by (simp add: engine_done_def)
next
  case True
  let ?s1 = "s\<lparr>engine_ops := remove1 op (engine_ops s)\<rparr>"
  have inv1: "registered_by_id ?s1" using inv by simp
  show ?thesis
  proof (cases op)
    case (Load_op dv)
    have "registered_by_id (handleRtpCapabilities_loaded (?s1\<lparr>loaded := dv # loaded s\<rparr>))"
      by (rule registered_by_id_frame [OF inv1]) simp_all
    moreover have "registered_by_id (record_action a ?s1)" for a
      by (rule registered_by_id_frame [OF inv1]) simp_all
    ultimately show ?thesis using True Load_op by (simp add: engine_done_def Let_def)
  next
    case (Produce_op t tr)
    have "registered_by_id (produce_done tr r ?s1)"
    proof (cases r)
      case (Engine_produced p)
      from inv have d: "distinct (map_keys (producers s))"
        and k: "\<forall>(k, v) \<in> set (producers s). k = prod_id v"
        by (simp_all add: registered_by_id_def)
      have "distinct (map_keys (map_set (prod_id p) p (producers s)))"
        by (rule distinct_map_set [OF d])
      moreover have "\<forall>(k, v) \<in> set (map_set (prod_id p) p (producers s)). k = prod_id v"
        by (rule by_id_map_set [OF k])
      ultimately show ?thesis using inv
        by (simp add: Engine_produced produce_done_def registered_by_id_def)
    qed (use inv in \<open>simp_all add: produce_done_def registered_by_id_def\<close>)
    then show ?thesis using True Produce_op by (simp add: engine_done_def Let_def)
  next
    case (Consume_op i t cd)
    have "registered_by_id (consume_done i t r ?s1)"
    proof (cases r)
      case (Engine_consumed c)
      from inv have d: "distinct (map_keys (consumers s))"
        and k: "\<forall>(k, v) \<in> set (consumers s). k = cons_id v"
        by (simp_all add: registered_by_id_def)
      have "distinct (map_keys (map_set (cons_id c) c (consumers s)))"
        by (rule distinct_map_set [OF d])
      moreover have "\<forall>(k, v) \<in> set (map_set (cons_id c) c (consumers s)). k = cons_id v"
        by (rule by_id_map_set [OF k])
      ultimately show ?thesis using inv
        by (simp add: Engine_consumed consume_done_def registered_by_id_def)
    qed (use inv in \<open>simp_all add: consume_done_def registered_by_id_def\<close>)
    then show ?thesis using True Consume_op by (simp add: engine_done_def Let_def)
  qed
qed

lemma registered_by_id_step: "registered_by_id s \<Longrightarrow> registered_by_id (step s e)"
proof (cases e)
  case (Engine_done op r)
  assume "registered_by_id s"
  then show ?thesis by (simp add: Engine_done registered_by_id_engine_done)
next
  case Call_disconnect
  show ?thesis by (simp add: Call_disconnect registered_by_id_def disconnect_fields map_keys_def)
next
  case Run_microtask
  assume "registered_by_id s"
  then show ?thesis
    by (cases "microtasks s") (simp_all add: Run_microtask registered_by_id_def)
qed (simp_all add: registered_by_id_def joinRoom_def)

lemma registered_by_id_run: "registered_by_id (run (constructor pid) evs)"
proof (induction evs rule: rev_induct)
  case Nil show ?case by (simp add: run_def registered_by_id_def constructor_def map_keys_def)
next
  case (snoc e evs) then show ?case by (simp only: run_snoc registered_by_id_step)
qed

lemma distinct_values:
  assumes d: "distinct (map_keys m)" and k: "\<forall>(k, v) \<in> set m. k = f v"
  shows "distinct (map_values m)"
proof -
  from k have "map_keys m = map f (map_values m)"
    by (induction m) (auto simp: map_keys_def map_values_def)
  with d show ?thesis by (simp add: distinct_map)
qed

lemma registered_once:
  "registered_by_id s \<Longrightarrow>
     distinct (map_values (producers s)) \<and> distinct (map_values (consumers s))"
  by (simp add: registered_by_id_def distinct_values [where f = prod_id]
        distinct_values [where f = cons_id])

section \<open>An idle client stays idle\<close>


lemma idle_updates [simp]:
  "idle (s\<lparr>trace := x1\<rparr>) = idle s"
  "idle (s\<lparr>consumeQueue := x2\<rparr>) = idle s"
  "idle (s\<lparr>consumerTransports := x3\<rparr>) = idle s"
  "idle (s\<lparr>producers := x4\<rparr>) = idle s"
  "idle (s\<lparr>consumers := x5\<rparr>) = idle s"
  "idle (s\<lparr>fresh := x6\<rparr>) = idle s"
  "idle (s\<lparr>producerTransport := x7\<rparr>) = idle s"
  "idle (s\<lparr>pendingExistingProducers := x8\<rparr>) = idle s"
  "idle (s\<lparr>device := x9\<rparr>) = idle s"
  "idle (s\<lparr>ws := x10\<rparr>) = idle s"
  "idle (s\<lparr>onopen_join := x11\<rparr>) = idle s"
  "idle (s\<lparr>loaded := x12\<rparr>) = idle s"
  "idle (s\<lparr>engine_consumers := x13\<rparr>) = idle s"
  by (simp_all add: idle_def)

lemma idle_basic [simp]:
  "idle (record_action a s) = idle s" "idle (send m s) = idle s"
  by (simp_all add: record_action_def send_def)

lemma idle_frame:
  "idle s \<Longrightarrow> tokens s' = tokens s \<Longrightarrow> eventHandlers s' = eventHandlers s \<Longrightarrow> idle s'"
  by (simp add: idle_def)

lemma idle_once: "idle s \<Longrightarrow> callback_tokens cb = {#} \<Longrightarrow> idle (once ev cb s)"
  by (simp add: idle_def tokens_once handlers_wf_once)

lemma idle_on: "idle s \<Longrightarrow> handler_tokens h = {#} \<Longrightarrow> handler_wf ev h \<Longrightarrow> idle (on ev h s)"
  by (simp add: idle_def tokens_on handlers_wf_on)

text \<open>calling a handler of an idle client\<close>
lemma idle_call_handler:
  assumes idle: "idle s" and h: "h \<in> set (handlers_of s ev)"
  shows "idle (call_handler h args s)"
    and "consumeQueue (call_handler h args s) = consumeQueue s"
proof -
  from idle have t: "tokens s = {#}" and wf: "handlers_wf (eventHandlers s)"
    by (simp_all add: idle_def)
  have "handler_tokens h \<subseteq># tokens s" by (rule handler_tokens_sub [OF h])
  with t have nt: "handler_tokens h = {#}" by simp
  have hwf: "handler_wf ev h" by (rule handlers_of_wf [OF wf h])
  have "idle (call_handler h args s) \<and> consumeQueue (call_handler h args s) = consumeQueue s"
  proof (cases h)
    case (Plain cb)
    with nt have c: "callback_tokens cb = {#}" by simp
    show ?thesis
      using t wf by (simp add: Plain idle_def notoken_callback [OF c] call_callback_frame)
  next
    case (Once_wrapper w ev' cb)
    with nt have c: "callback_tokens cb = {#}" by simp
    from Once_wrapper hwf have ev: "ev' = ev" by simp
    let ?s1 = "call_callback cb args s"
    have "h \<in> set (handlers_of ?s1 ev)" using h by simp
    then have "tokens (off ev h ?s1) + handler_tokens h = tokens ?s1" by (rule tokens_off)
    with nt t have t2: "tokens (off ev h ?s1) = {#}" by (simp add: notoken_callback [OF c])
    have wf1: "handlers_wf (eventHandlers ?s1)" using wf by (simp only: call_callback_frame)
    have wf2: "handlers_wf (eventHandlers (off ev h ?s1))" by (rule handlers_wf_off [OF wf1])
    show ?thesis
      using t2 wf2 by (simp add: Once_wrapper ev idle_def notoken_callback [OF c])
  qed
  then show "idle (call_handler h args s)"
    and "consumeQueue (call_handler h args s) = consumeQueue s" by simp_all
qed

lemma idle_emit:
  assumes "idle s"
  shows "idle (emit ev args s) \<and> consumeQueue (emit ev args s) = consumeQueue s"
proof (rule emit_preserves)
  fix k and s' :: client
  assume a: "idle s' \<and> consumeQueue s' = consumeQueue s" and k: "k < length (handlers_of s' ev)"
  then have m: "handlers_of s' ev ! k \<in> set (handlers_of s' ev)" by simp
  from a have i: "idle s'" by simp
  show "idle (call_handler (handlers_of s' ev ! k) args s')
      \<and> consumeQueue (call_handler (handlers_of s' ev ! k) args s') = consumeQueue s"
    using idle_call_handler [OF i m, of args] a by simp
next
  show "idle (record_action (Emitted ev args) s)
      \<and> consumeQueue (record_action (Emitted ev args) s) = consumeQueue s"
    using assms by simp
qed

lemma idle_emit_newProducers:
  "idle s \<Longrightarrow> idle (emit_newProducers ps s) \<and> consumeQueue (emit_newProducers ps s) = consumeQueue s"
proof (induction ps arbitrary: s)
  case Nil then show ?case by simp
next
  case (Cons p ps)
  let ?s1 = "emit ''newProducer''
          (Producer_args \<lparr>ann_participantId = ann_participantId p,
                          ann_producerId = ann_producerId p, ann_kind = ann_kind p\<rparr>) s"
  from idle_emit [OF Cons.prems] have 1: "idle ?s1" and 2: "consumeQueue ?s1 = consumeQueue s"
    by simp_all
  from Cons.IH [OF 1] 2 show ?case by simp
qed

lemma idle_loaded:
  "idle s \<Longrightarrow> idle (handleRtpCapabilities_loaded s)
     \<and> consumeQueue (handleRtpCapabilities_loaded s) = consumeQueue s"
  using idle_emit_newProducers [of "s\<lparr>pendingExistingProducers := []\<rparr>" "pendingExistingProducers s"]
  by (simp add: handleRtpCapabilities_loaded_def Let_def)

lemma idle_onmessage:
  assumes "idle s"
  shows "idle (onmessage m s) \<and> consumeQueue (onmessage m s) = consumeQueue s"
proof (cases m)
  case (Joined x)
  from idle_emit [OF assms, of "''joined''" "Joined_args x"] show ?thesis
    by (auto simp: Joined onmessage_def Let_def split: option.splits)
next
  case RtpCapabilities
  have "idle (handleRtpCapabilities s)"
    by (rule idle_frame [OF assms]) (simp_all add: handleRtpCapabilities_def tokens_def)
  then show ?thesis by (simp add: RtpCapabilities onmessage_def) (simp add: handleRtpCapabilities_def)
next
  case (ParticipantLeft pid)
  have "idle ((record_action (Closed_transport t) s)
      \<lparr>consumerTransports := map_delete pid (consumerTransports s)\<rparr>)" for t
    using assms by simp
  from idle_emit [OF this] idle_emit [OF assms] show ?thesis
    by (simp add: ParticipantLeft onmessage_def handleParticipantLeft_def split: option.splits)
qed (use idle_emit [OF assms] in \<open>simp_all add: onmessage_def assms\<close>)

lemma idle_produceTrack_resume: "idle s \<Longrightarrow> idle (produceTrack_resume tr s)"
proof -
  assume i: "idle s"
  have "idle (s\<lparr>engine_ops := engine_ops s @ [Produce_op t tr]\<rparr>)" for t
    by (rule idle_frame [OF i]) (simp_all add: tokens_engine_ops_snoc)
  with i show ?thesis by (simp add: produceTrack_resume_def split: option.splits)
qed

lemma op_tokens_sub: "op \<in> set (engine_ops s) \<Longrightarrow> op_tokens op \<subseteq># tokens s"
  using tokens_remove_op [of op s] by (metis mset_subset_eq_add_right)

lemma idle_engine_done:
  assumes "idle s"
  shows "idle (engine_done op r s) \<and> consumeQueue (engine_done op r s) = consumeQueue s"
proof (cases "op \<in> set (engine_ops s)")
  case False with assms show ?thesis by (simp add: engine_done_def)
next
  case True
  let ?s1 = "s\<lparr>engine_ops := remove1 op (engine_ops s)\<rparr>"
  from assms have t: "tokens s = {#}" by (simp add: idle_def)
  from op_tokens_sub [OF True] t have nt: "op_tokens op = {#}" by simp
  with tokens_remove_op [OF True] have "tokens ?s1 = tokens s" by simp
  then have i1: "idle ?s1" by (intro idle_frame [OF assms]) simp_all
  show ?thesis
  proof (cases op)
    case (Load_op dv)
    from i1 have "idle (?s1\<lparr>loaded := dv # loaded s\<rparr>)" by simp
    from idle_loaded [OF this] i1 show ?thesis using True
      by (simp add: Load_op engine_done_def Let_def)
  next
    case (Produce_op t tr)
    from i1 show ?thesis using True
      by (simp add: Produce_op engine_done_def Let_def produce_done_def split: engine_result.splits)
  next
    case (Consume_op i t cd)
    with nt show ?thesis by simp
  qed
qed

lemma task_tokens_sub: "microtasks s = m # ms \<Longrightarrow> microtask_tokens m \<subseteq># tokens s"
  using tokens_pop_task [of s m ms] by (metis mset_subset_eq_add_right)

lemma idle_run_microtask:
  assumes i: "idle s" and ms: "microtasks s = m # ms"
  shows "idle (run_microtask m (s\<lparr>microtasks := ms\<rparr>))
     \<and> consumeQueue (run_microtask m (s\<lparr>microtasks := ms\<rparr>)) = consumeQueue s"
proof -
  from i have t: "tokens s = {#}" by (simp add: idle_def)
  from task_tokens_sub [OF ms] t have nt: "microtask_tokens m = {#}" by simp
  with tokens_pop_task [OF ms] have "tokens (s\<lparr>microtasks := ms\<rparr>) = tokens s" by simp
  then have i1: "idle (s\<lparr>microtasks := ms\<rparr>)" by (intro idle_frame [OF i]) simp_all
  show ?thesis
  proof (cases m)
    case (Resume_createProducerTransport tr)
    with idle_produceTrack_resume [OF i1] show ?thesis by simp
  next
    case (Resume_createConsumerTransport j key pr t)
    with nt show ?thesis by simp
  qed
qed

section \<open>A stalled negotiation\<close>


lemma stalled_not_startable:
  assumes "stalled s"
  shows "\<not> startable s i"
proof
  assume st: "startable s i"
  from assms have f: "fifo (map cc_phase (consumeQueue s))" and ne: "consumeQueue s \<noteq> []"
    and r: "cc_phase (consumeQueue s ! 0) = Running" by (simp_all add: stalled_def)
  from ne have 0: "0 < length (consumeQueue s)" by simp
  from st have "cc_phase (consumeQueue s ! 0) \<noteq> Running"
    unfolding startable_def
    by (intro startable_no_running [where i = i and j = 0, OF f _ _ _ 0]) simp_all
  with r show False by simp
qed

lemma stalled_rest_queued:
  assumes "stalled s" and "0 < j" and "j < length (consumeQueue s)"
  shows "cc_phase (consumeQueue s ! j) = Queued"
proof (rule ccontr)
  assume n: "cc_phase (consumeQueue s ! j) \<noteq> Queued"
  from assms have f: "fifo (map cc_phase (consumeQueue s))"
    and r: "cc_phase (consumeQueue s ! 0) = Running" by (simp_all add: stalled_def)
  from f have "0 < j \<and> j < length (map cc_phase (consumeQueue s))
      \<and> map cc_phase (consumeQueue s) ! j \<noteq> Queued
      \<longrightarrow> is_settled (map cc_phase (consumeQueue s) ! 0)"
    unfolding fifo_def by blast
  moreover from assms(2,3) have z: "0 < length (consumeQueue s)" by auto
  ultimately have "is_settled (cc_phase (consumeQueue s ! 0))"
    using assms(2,3) n by (simp add: nth_map [OF z])
  with r show False by simp
qed

lemma stalled_keep:
  assumes "stalled s" and "idle s'" and "consumeQueue s' = consumeQueue s"
  shows "stalled s' \<and> (\<exists>cs. consumeQueue s' = consumeQueue s @ cs)"
  using assms by (simp add: stalled_def)

lemma stalled_step:
  assumes st: "stalled s"
  shows "stalled (step s e) \<and> (\<exists>cs. consumeQueue (step s e) = consumeQueue s @ cs)"
proof -
  from st have i: "idle s" by (simp add: stalled_def)
  show ?thesis
  proof (cases e)
    case (Call_on ev n)
    have "idle (on ev (Plain (Observer n)) s)" by (rule idle_on [OF i]) simp_all
    then show ?thesis unfolding Call_on step.simps by (intro stalled_keep [OF st]) simp_all
  next
    case Call_connect
    show ?thesis unfolding Call_connect step.simps
      by (intro stalled_keep [OF st]) (simp_all add: connect_def joinRoom_def i)
  next
    case (Call_produceTrack tr)
    have "idle (produceTrack tr s)"
      using i by (simp add: produceTrack_def createProducerTransport_def idle_once
            idle_produceTrack_resume)
    then show ?thesis unfolding Call_produceTrack step.simps
      by (intro stalled_keep [OF st]) simp_all
  next
    case (Call_consumeTrack pp pr)
    from st have f: "fifo (map cc_phase (consumeQueue s))" and ne: "consumeQueue s \<noteq> []"
      and r: "cc_phase (consumeQueue s ! 0) = Running" by (simp_all add: stalled_def)
    have "fifo (map cc_phase (consumeQueue s) @ [Queued])" by (rule fifo_append_Queued [OF f])
    with i ne r show ?thesis
      by (simp add: Call_consumeTrack consumeTrack_def stalled_def nth_append)
  next
    case Call_disconnect
    have "idle (disconnect s)"
      by (rule idle_frame [OF i]) (simp_all add: disconnect_fields)
    then show ?thesis unfolding Call_disconnect step.simps
      by (intro stalled_keep [OF st]) (simp_all add: disconnect_fields)
  next
    case Ws_open
    show ?thesis unfolding Ws_open step.simps
      by (intro stalled_keep [OF st]) (simp_all add: joinRoom_def i)
  next
    case Ws_close
    show ?thesis unfolding Ws_close step.simps
      by (intro stalled_keep [OF st]) (simp_all add: i)
  next
    case (Ws_message m)
    from idle_onmessage [OF i, of m] show ?thesis unfolding Ws_message step.simps
      by (intro stalled_keep [OF st]) simp_all
  next
    case (Queue_reaction j)
    from stalled_not_startable [OF st, of j] have "queue_reaction j s = s"
      by (simp add: queue_reaction_startable)
    with st show ?thesis by (simp add: Queue_reaction)
  next
    case Run_microtask
    show ?thesis
    proof (cases "microtasks s")
      case Nil with st show ?thesis by (simp add: Run_microtask)
    next
      case (Cons m ms)
      from idle_run_microtask [OF i Cons] show ?thesis
        unfolding Run_microtask step.simps Cons list.case
        by (intro stalled_keep [OF st]) simp_all
    qed
  next
    case (Transport_connect t c)
    have "idle (transport_connect t c s)"
      using i by (simp add: transport_connect_def idle_once)
    then show ?thesis unfolding Transport_connect step.simps
      by (intro stalled_keep [OF st]) simp_all
  next
    case (Transport_produce t kind c)
    have "idle (transport_produce t kind c s)"
      using i by (simp add: transport_produce_def idle_once)
    then show ?thesis unfolding Transport_produce step.simps
      by (intro stalled_keep [OF st]) simp_all
  next
    case (Engine_done op r)
    from idle_engine_done [OF i, of op r] show ?thesis unfolding Engine_done step.simps
      by (intro stalled_keep [OF st]) simp_all
  qed
qed

lemma stalled_run:
  "stalled s \<Longrightarrow> stalled (run s evs) \<and> (\<exists>cs. consumeQueue (run s evs) = consumeQueue s @ cs)"
proof (induction evs rule: rev_induct)
  case Nil then show ?case by (simp add: run_def)
next
  case (snoc e evs)
  then have 1: "stalled (run s evs)" and "\<exists>cs. consumeQueue (run s evs) = consumeQueue s @ cs"
    by simp_all
  then obtain cs where cs: "consumeQueue (run s evs) = consumeQueue s @ cs" by blast
  from stalled_step [OF 1, of e] obtain cs' where
    2: "stalled (step (run s evs) e)"
    and cs': "consumeQueue (step (run s evs) e) = consumeQueue (run s evs) @ cs'" by blast
  show ?case unfolding run_snoc using 2 cs cs' by simp
qed

text \<open>the first call of a stalled client never settles and the second never starts\<close>
lemma stalled_forever:
  assumes st: "stalled s" and len: "1 < length (consumeQueue s)"
  shows "cc_phase (consumeQueue (run s evs) ! 0) = Running
     \<and> cc_phase (consumeQueue (run s evs) ! 1) = Queued"
proof -
  from stalled_run [OF st, of evs] obtain cs where
    1: "stalled (run s evs)" and cs: "consumeQueue (run s evs) = consumeQueue s @ cs" by blast
  from cs len have l: "1 < length (consumeQueue (run s evs))" by simp
  from 1 have "cc_phase (consumeQueue (run s evs) ! 0) = Running" by (simp add: stalled_def)
  moreover have "cc_phase (consumeQueue (run s evs) ! 1) = Queued"
    by (rule stalled_rest_queued [OF 1 _ l]) simp
  ultimately show ?thesis ..
qed

lemma fifo_Nil [simp]: "fifo []"
  by (simp add: fifo_def)

section \<open>The claims\<close>

text \<open>
  Claim C1 holds for the order and fails for the progress. In every state the client can
  reach from its construction, whatever the calls, messages and completions and whatever
  their order: the queue holds the \<^verbatim>\<open>consumeTrack\<close> calls in the order they were made; a
  call has left the queue only if all calls made before it have settled, so the negotiations
  start in call order and one at a time; at most one negotiation is in flight. But a call
  that fails can hold up the calls queued behind it for good. Below the device is loaded,
  two consumes are called, and the engine refuses the transport parameters of the server's
  reply to the first: \<^verbatim>\<open>setupConsumerTransport\<close> throws inside the callback of
  \<^verbatim>\<open>createConsumerTransport\<close>, whose promise is never settled. Whatever happens afterwards
  (\<open>evs'\<close> is any sequence of transitions), the first call is still in flight, the second is
  still queued, and the reaction that would start the second does nothing.
\<close>

theorem serialized_queue_blocked_by_failed_call:
  "map call_args (consumeQueue (run (constructor pid) evs)) = calls_made evs
   \<and> fifo (map cc_phase (consumeQueue (run (constructor pid) evs)))
   \<and> length (in_flight (run (constructor pid) evs)) \<le> 1
   \<and> cc_phase (consumeQueue (run (run (constructor ''me'')
      [Ws_open, Ws_message RtpCapabilities, Engine_done (Load_op 0) Engine_loaded,
       Call_consumeTrack ''A'' ''p1'', Call_consumeTrack ''B'' ''p2'', Queue_reaction 0,
       Ws_message (ConsumerTransportCreated \<lparr>td_id = ''t1'', td_accepted = False\<rparr>)]) evs') ! 0) = Running
   \<and> cc_phase (consumeQueue (run (run (constructor ''me'')
      [Ws_open, Ws_message RtpCapabilities, Engine_done (Load_op 0) Engine_loaded,
       Call_consumeTrack ''A'' ''p1'', Call_consumeTrack ''B'' ''p2'', Queue_reaction 0,
       Ws_message (ConsumerTransportCreated \<lparr>td_id = ''t1'', td_accepted = False\<rparr>)]) evs') ! 1) = Queued
   \<and> step (run (run (constructor ''me'')
      [Ws_open, Ws_message RtpCapabilities, Engine_done (Load_op 0) Engine_loaded,
       Call_consumeTrack ''A'' ''p1'', Call_consumeTrack ''B'' ''p2'', Queue_reaction 0,
       Ws_message (ConsumerTransportCreated \<lparr>td_id = ''t1'', td_accepted = False\<rparr>)]) evs') (Queue_reaction 1) = run (run (constructor ''me'')
      [Ws_open, Ws_message RtpCapabilities, Engine_done (Load_op 0) Engine_loaded,
       Call_consumeTrack ''A'' ''p1'', Call_consumeTrack ''B'' ''p2'', Queue_reaction 0,
       Ws_message (ConsumerTransportCreated \<lparr>td_id = ''t1'', td_accepted = False\<rparr>)]) evs'"
proof -
  let ?s = "(run (constructor ''me'')
      [Ws_open, Ws_message RtpCapabilities, Engine_done (Load_op 0) Engine_loaded,
       Call_consumeTrack ''A'' ''p1'', Call_consumeTrack ''B'' ''p2'', Queue_reaction 0,
       Ws_message (ConsumerTransportCreated \<lparr>td_id = ''t1'', td_accepted = False\<rparr>)])"
  have 1: "map call_args (consumeQueue (run (constructor pid) evs)) = calls_made evs"
    by (rule args_run)
  have 2: "fifo (map cc_phase (consumeQueue (run (constructor pid) evs)))"
    by (rule fifo_run)
  have 3: "length (in_flight (run (constructor pid) evs)) \<le> 1"
    unfolding in_flight_def by (rule fifo_one_running [OF fifo_run])
  have st: "stalled ?s"
    by (simp add: model_defs stalled_def idle_def tokens_def map_tokens_def handlers_wf_def
          fifo_Cons)
  have len: "1 < length (consumeQueue ?s)" by (simp add: model_defs)
  from stalled_forever [OF st len, of evs']
  have 4: "cc_phase (consumeQueue (run ?s evs') ! 0) = Running"
    and 5: "cc_phase (consumeQueue (run ?s evs') ! 1) = Queued" by simp_all
  from stalled_run [OF st, of evs'] have "stalled (run ?s evs')" by simp
  then have "\<not> startable (run ?s evs') 1" by (rule stalled_not_startable)
  then have "queue_reaction 1 (run ?s evs') = run ?s evs'"
    by (simp only: queue_reaction_startable if_False)
  then have 6: "step (run ?s evs') (Queue_reaction 1) = run ?s evs'" by (simp only: step.simps)
  from 1 2 3 4 5 6 show ?thesis by (simp only: simp_thms)
qed

theorem serialized_queue_blocked_by_failed_call_witness:
  "length (in_flight (run (constructor ''me'')
      [Ws_open, Ws_message RtpCapabilities, Engine_done (Load_op 0) Engine_loaded,
       Call_consumeTrack ''A'' ''p1'', Call_consumeTrack ''B'' ''p2'', Queue_reaction 1,
       Queue_reaction 0, Queue_reaction 1])) \<le> 1
   \<and> map cc_phase (consumeQueue (run (constructor ''me'')
      [Ws_open, Ws_message RtpCapabilities, Engine_done (Load_op 0) Engine_loaded,
       Call_consumeTrack ''A'' ''p1'', Call_consumeTrack ''B'' ''p2'', Queue_reaction 1,
       Queue_reaction 0, Queue_reaction 1])) = [Running, Queued]
   \<and> cc_phase (consumeQueue (run (run (constructor ''me'')
      [Ws_open, Ws_message RtpCapabilities, Engine_done (Load_op 0) Engine_loaded,
       Call_consumeTrack ''A'' ''p1'', Call_consumeTrack ''B'' ''p2'', Queue_reaction 0,
       Ws_message (ConsumerTransportCreated \<lparr>td_id = ''t1'', td_accepted = False\<rparr>)])
        [Queue_reaction 1, Ws_message (ConsumerTransportCreated \<lparr>td_id = ''t2'', td_accepted = True\<rparr>),
         Run_microtask, Queue_reaction 1]) ! 1) = Queued"
  using serialized_queue_blocked_by_failed_call [of "''me''"
      "[Ws_open, Ws_message RtpCapabilities, Engine_done (Load_op 0) Engine_loaded,
       Call_consumeTrack ''A'' ''p1'', Call_consumeTrack ''B'' ''p2'', Queue_reaction 1,
       Queue_reaction 0, Queue_reaction 1]"
      "[Queue_reaction 1, Ws_message (ConsumerTransportCreated \<lparr>td_id = ''t2'', td_accepted = True\<rparr>),
         Run_microtask, Queue_reaction 1]"]
  by (simp add: model_defs in_flight_def)

text \<open>
  Claim C2. When the load of the device completes (the transition to Ready) while \<open>N\<close>
  announcements are buffered, exactly those \<open>N\<close> \<^verbatim>\<open>newProducer\<close> notifications are
  published, in the order of the buffer, and nothing else is published; the buffer is empty
  afterwards; a further completion of a load, which finds the buffer empty, publishes
  nothing.
\<close>

theorem ready_flushes_pending:
  "Load_op d \<in> set (engine_ops s) \<Longrightarrow>
     emitted (step s (Engine_done (Load_op d) Engine_loaded)) =
       emitted s @ map (\<lambda>p. (''newProducer'', Producer_args p)) (pendingExistingProducers s)
     \<and> pendingExistingProducers (step s (Engine_done (Load_op d) Engine_loaded)) = []
     \<and> emitted (step (step s (Engine_done (Load_op d) Engine_loaded))
                   (Engine_done (Load_op d') Engine_loaded))
         = emitted (step s (Engine_done (Load_op d) Engine_loaded))"
proof (intro conjI)
  assume d: "Load_op d \<in> set (engine_ops s)"
  let ?s' = "step s (Engine_done (Load_op d) Engine_loaded)"
  show "emitted ?s' =
      emitted s @ map (\<lambda>p. (''newProducer'', Producer_args p)) (pendingExistingProducers s)"
    using d by (simp only: emitted_step_load_done if_True)
  show p: "pendingExistingProducers ?s' = []"
    using d by (rule pending_step_load_done)
  show "emitted (step ?s' (Engine_done (Load_op d') Engine_loaded)) = emitted ?s'"
    by (simp only: emitted_step_load_done [of ?s'] p) simp
qed

theorem ready_flushes_pending_witness:
  "emitted (run (constructor ''me'')
      [Ws_message (Joined (Some
          [\<lparr>ann_participantId = ''A'', ann_producerId = ''p1'', ann_kind = ''video''\<rparr>,
           \<lparr>ann_participantId = ''B'', ann_producerId = ''p2'', ann_kind = ''audio''\<rparr>])),
       Ws_message RtpCapabilities, Engine_done (Load_op 0) Engine_loaded]) =
   [(''joined'', Joined_args (Some
          [\<lparr>ann_participantId = ''A'', ann_producerId = ''p1'', ann_kind = ''video''\<rparr>,
           \<lparr>ann_participantId = ''B'', ann_producerId = ''p2'', ann_kind = ''audio''\<rparr>])),
    (''newProducer'',
       Producer_args \<lparr>ann_participantId = ''A'', ann_producerId = ''p1'', ann_kind = ''video''\<rparr>),
    (''newProducer'',
       Producer_args \<lparr>ann_participantId = ''B'', ann_producerId = ''p2'', ann_kind = ''audio''\<rparr>)]"
  using ready_flushes_pending [of 0 "run (constructor ''me'')
      [Ws_message (Joined (Some
          [\<lparr>ann_participantId = ''A'', ann_producerId = ''p1'', ann_kind = ''video''\<rparr>,
           \<lparr>ann_participantId = ''B'', ann_producerId = ''p2'', ann_kind = ''audio''\<rparr>])),
       Ws_message RtpCapabilities]"]
  by (simp add: model_defs emitted_def)

text \<open>
  Claim C9, as stated, fails: the announcements of successive \<^verbatim>\<open>joined\<close> messages do not
  accumulate. After two \<^verbatim>\<open>joined\<close> messages, each with one existing producer, the buffer
  holds the announcement of the second message only.
\<close>

theorem joined_overwrites_pending:
  "pendingExistingProducers (run (constructor ''me'')
      [Ws_message (Joined (Some
          [\<lparr>ann_participantId = ''A'', ann_producerId = ''p1'', ann_kind = ''video''\<rparr>])),
       Ws_message (Joined (Some
          [\<lparr>ann_participantId = ''B'', ann_producerId = ''p2'', ann_kind = ''audio''\<rparr>]))])
   = [\<lparr>ann_participantId = ''B'', ann_producerId = ''p2'', ann_kind = ''audio''\<rparr>]"
  by (simp add: model_defs)

text \<open>
  Claim C9, amended. In every state, so in particular while the device is not ready, a
  \<^verbatim>\<open>joined\<close> message with a non-empty list of existing producers replaces the pending
  buffer by that list, in the order of the message, and a \<^verbatim>\<open>joined\<close> message with an empty
  or absent list leaves the buffer as it is; the message is not acted upon otherwise: the
  only notification published is \<^verbatim>\<open>joined\<close>.
\<close>

theorem joined_replaces_pending:
  "pendingExistingProducers (step s (Ws_message (Joined existing))) =
     (case existing of
        Some ps \<Rightarrow> if ps = [] then pendingExistingProducers s else ps
      | None \<Rightarrow> pendingExistingProducers s)
   \<and> emitted (step s (Ws_message (Joined existing))) =
       emitted s @ [(''joined'', Joined_args existing)]"
  by (simp add: onmessage_def Let_def emit_frame emitted_emit split: option.splits)

theorem joined_replaces_pending_witness:
  "pendingExistingProducers (step
      ((constructor ''me'')\<lparr>pendingExistingProducers :=
          [\<lparr>ann_participantId = ''A'', ann_producerId = ''p1'', ann_kind = ''video''\<rparr>]\<rparr>)
      (Ws_message (Joined (Some
          [\<lparr>ann_participantId = ''B'', ann_producerId = ''p2'', ann_kind = ''audio''\<rparr>]))))
   = [\<lparr>ann_participantId = ''B'', ann_producerId = ''p2'', ann_kind = ''audio''\<rparr>]"
  using joined_replaces_pending [of "(constructor ''me'')\<lparr>pendingExistingProducers :=
          [\<lparr>ann_participantId = ''A'', ann_producerId = ''p1'', ann_kind = ''video''\<rparr>]\<rparr>"
      "Some [\<lparr>ann_participantId = ''B'', ann_producerId = ''p2'', ann_kind = ''audio''\<rparr>]"]
  by simp

text \<open>
  Claim C10. \<^verbatim>\<open>disconnect\<close> empties the producer, consumer and consumer-transport maps and
  leaves the \<^verbatim>\<open>device\<close> and \<^verbatim>\<open>producerTransport\<close> fields set. A \<^verbatim>\<open>produceTrack\<close> that
  follows therefore records no rejection, registers no handler and sends no request: all it
  does is to call \<^verbatim>\<open>produce\<close> on the old producer transport, which \<^verbatim>\<open>disconnect\<close> has closed.
\<close>

theorem produce_after_disconnect:
  "device s \<noteq> None \<Longrightarrow> producerTransport s = Some t \<Longrightarrow>
     producers (disconnect s) = [] \<and> consumers (disconnect s) = []
     \<and> consumerTransports (disconnect s) = []
     \<and> device (disconnect s) = device s \<and> producerTransport (disconnect s) = Some t
     \<and> Closed_transport t \<in> set (trace (disconnect s))
     \<and> step (disconnect s) (Call_produceTrack tr) =
         (disconnect s)\<lparr>engine_ops := engine_ops (disconnect s) @ [Produce_op t tr]\<rparr>"
  by (auto simp add: disconnect_fields trace_disconnect produceTrack_def produceTrack_resume_def)

theorem produce_after_disconnect_witness:
  "trace (step (disconnect (run (constructor ''me'')
      [Ws_open, Ws_message RtpCapabilities, Engine_done (Load_op 0) Engine_loaded,
       Call_produceTrack 5,
       Ws_message (ProducerTransportCreated \<lparr>td_id = ''pt'', td_accepted = True\<rparr>),
       Run_microtask])) (Call_produceTrack 6))
    = [Sent (CreateProducerTransport ''me''),
       Emitted ''producerTransportCreated''
         (Transport_args \<lparr>td_id = ''pt'', td_accepted = True\<rparr>),
       Closed_transport \<lparr>tr_obj = 2, tr_id = ''pt'', tr_send = True\<rparr>, Closed_ws]"
  using produce_after_disconnect [of "run (constructor ''me'')
      [Ws_open, Ws_message RtpCapabilities, Engine_done (Load_op 0) Engine_loaded,
       Call_produceTrack 5,
       Ws_message (ProducerTransportCreated \<lparr>td_id = ''pt'', td_accepted = True\<rparr>),
       Run_microtask]" "\<lparr>tr_obj = 2, tr_id = ''pt'', tr_send = True\<rparr>" 6]
  by (simp add: model_defs)

text \<open>
  Claim C3, as stated, fails for \<^verbatim>\<open>consumeTrack\<close>: called on a client that has not received
  the server's capabilities, it does not fail with an error the caller can see. The call
  resolves with \<^verbatim>\<open>null\<close>, as every failed consume does.
\<close>

theorem consumeTrack_not_ready_resolves_null:
  "trace (run (constructor ''me'') [Call_consumeTrack ''A'' ''p1'', Queue_reaction 0])
     = [Consume_resolved 0 None]
   \<and> map cc_phase (consumeQueue (run (constructor ''me'')
        [Call_consumeTrack ''A'' ''p1'', Queue_reaction 0])) = [Settled None]"
  by (simp add: model_defs)

text \<open>
  Claim C3, amended. While the \<^verbatim>\<open>device\<close> field is unset (the server's capabilities have
  not been handled yet), \<^verbatim>\<open>produceTrack\<close> fails at once with the error
  \<^verbatim>\<open>Device not initialized\<close>, which its caller sees, and sends nothing; \<^verbatim>\<open>consumeTrack\<close>
  does not fail: when its turn in the queue has come, \<^verbatim>\<open>_consumeTrack\<close> throws that error,
  the queue swallows it, and the call resolves with \<^verbatim>\<open>null\<close>, nothing being sent.
\<close>

theorem not_initialized:
  "device s = None \<Longrightarrow>
     step s (Call_produceTrack tr) = record_action (Produce_rejected tr Device_not_initialized) s
     \<and> (startable s i \<longrightarrow>
          step s (Queue_reaction i) =
            record_action (Consume_resolved i None)
              (s\<lparr>consumeQueue :=
                   (consumeQueue s)[i := (consumeQueue s ! i)\<lparr>cc_phase := Settled None\<rparr>]\<rparr>))"
  by (simp add: produceTrack_def queue_reaction_def startable_def consumeTrack'_def settle_def
       catch_null_def Let_def)

theorem not_initialized_witness:
  "trace (step (constructor ''me'') (Call_produceTrack 5))
     = [Produce_rejected 5 Device_not_initialized]
   \<and> trace (step (step (constructor ''me'') (Call_consumeTrack ''A'' ''p1'')) (Queue_reaction 0))
     = [Consume_resolved 0 None]"
  using not_initialized [of "constructor ''me''" 5 0]
    not_initialized [of "step (constructor ''me'') (Call_consumeTrack ''A'' ''p1'')" 5 0]
  by (simp add: model_defs startable_def)






text \<open>
  Claim C7. \<^verbatim>\<open>disconnect\<close> closes the registered Producers, then the registered Consumers,
  then the Producer Transport if there is one, then the Consumer Transports, then the
  channel, each collection in the order of its map, and nothing else; in a state the client
  can reach no handle is registered twice, so each registered Producer and Consumer is closed
  exactly once. Afterwards the three maps are empty, and a second \<^verbatim>\<open>disconnect\<close> finds them
  empty: it closes the Producer Transport (still set) and the channel again, nothing more.
\<close>

theorem disconnect_closes_everything:
  "trace (step s Call_disconnect) =
     trace s @ map Closed_producer (map_values (producers s))
       @ map Closed_consumer (map_values (consumers s))
       @ (case producerTransport s of None \<Rightarrow> [] | Some t \<Rightarrow> [Closed_transport t])
       @ map Closed_transport (map_values (consumerTransports s)) @ [Closed_ws]
   \<and> producers (step s Call_disconnect) = [] \<and> consumers (step s Call_disconnect) = []
   \<and> consumerTransports (step s Call_disconnect) = []
   \<and> trace (step (step s Call_disconnect) Call_disconnect) =
       trace (step s Call_disconnect)
         @ (case producerTransport s of None \<Rightarrow> [] | Some t \<Rightarrow> [Closed_transport t])
         @ [Closed_ws]
   \<and> distinct (map_values (producers (run (constructor pid) evs)))
   \<and> distinct (map_values (consumers (run (constructor pid) evs)))"
proof -
  have "distinct (map_values (producers (run (constructor pid) evs)))
      \<and> distinct (map_values (consumers (run (constructor pid) evs)))"
    by (rule registered_once [OF registered_by_id_run])
  moreover have "trace (disconnect (disconnect s)) =
       trace (disconnect s)
         @ (case producerTransport s of None \<Rightarrow> [] | Some t \<Rightarrow> [Closed_transport t])
         @ [Closed_ws]"
    by (simp add: trace_disconnect [of "disconnect s"] disconnect_fields map_values_def)
  ultimately show ?thesis
    by (simp add: trace_disconnect disconnect_fields)
qed

theorem disconnect_closes_everything_witness:
  "trace (step
      ((constructor ''me'')
         \<lparr>producers := [(''p1'', \<lparr>prod_id = ''p1'', prod_track = 5\<rparr>),
                        (''p2'', \<lparr>prod_id = ''p2'', prod_track = 6\<rparr>)],
          consumers := [(''c1'', \<lparr>cons_id = ''c1'', cons_track = 11\<rparr>)],
          producerTransport := Some \<lparr>tr_obj = 1, tr_id = ''pt'', tr_send = True\<rparr>,
          consumerTransports := [(''A'', \<lparr>tr_obj = 2, tr_id = ''t1'', tr_send = False\<rparr>)]\<rparr>)
      Call_disconnect)
   = [Closed_producer \<lparr>prod_id = ''p1'', prod_track = 5\<rparr>,
      Closed_producer \<lparr>prod_id = ''p2'', prod_track = 6\<rparr>,
      Closed_consumer \<lparr>cons_id = ''c1'', cons_track = 11\<rparr>,
      Closed_transport \<lparr>tr_obj = 1, tr_id = ''pt'', tr_send = True\<rparr>,
      Closed_transport \<lparr>tr_obj = 2, tr_id = ''t1'', tr_send = False\<rparr>,
      Closed_ws]
   \<and> distinct (map_values (consumers (run (constructor ''me'')
      [Ws_open, Ws_message RtpCapabilities, Engine_done (Load_op 0) Engine_loaded,
       Call_consumeTrack ''A'' ''p1'', Queue_reaction 0,
       Ws_message (ConsumerTransportCreated \<lparr>td_id = ''t1'', td_accepted = True\<rparr>),
       Run_microtask,
       Ws_message (Consumed \<lparr>cd_id = ''c1'', cd_producerId = ''p1'', cd_kind = ''video''\<rparr>),
       Engine_done (Consume_op 0 \<lparr>tr_obj = 2, tr_id = ''t1'', tr_send = False\<rparr>
                       \<lparr>cd_id = ''c1'', cd_producerId = ''p1'', cd_kind = ''video''\<rparr>)
                   (Engine_consumed \<lparr>cons_id = ''c1'', cons_track = 11\<rparr>)])))"
  using disconnect_closes_everything [of
      "(constructor ''me'')
         \<lparr>producers := [(''p1'', \<lparr>prod_id = ''p1'', prod_track = 5\<rparr>),
                        (''p2'', \<lparr>prod_id = ''p2'', prod_track = 6\<rparr>)],
          consumers := [(''c1'', \<lparr>cons_id = ''c1'', cons_track = 11\<rparr>)],
          producerTransport := Some \<lparr>tr_obj = 1, tr_id = ''pt'', tr_send = True\<rparr>,
          consumerTransports := [(''A'', \<lparr>tr_obj = 2, tr_id = ''t1'', tr_send = False\<rparr>)]\<rparr>"
      "''me''"
      "[Ws_open, Ws_message RtpCapabilities, Engine_done (Load_op 0) Engine_loaded,
       Call_consumeTrack ''A'' ''p1'', Queue_reaction 0,
       Ws_message (ConsumerTransportCreated \<lparr>td_id = ''t1'', td_accepted = True\<rparr>),
       Run_microtask,
       Ws_message (Consumed \<lparr>cd_id = ''c1'', cd_producerId = ''p1'', cd_kind = ''video''\<rparr>),
       Engine_done (Consume_op 0 \<lparr>tr_obj = 2, tr_id = ''t1'', tr_send = False\<rparr>
                       \<lparr>cd_id = ''c1'', cd_producerId = ''p1'', cd_kind = ''video''\<rparr>)
                   (Engine_consumed \<lparr>cons_id = ''c1'', cons_track = 11\<rparr>)]"]
  by (simp add: constructor_def map_values_def)

text \<open>
  Claim C6 fails on the code where the setup of a new Consumer Transport throws. The
  callback of \<^verbatim>\<open>createConsumerTransport\<close> has no \<^verbatim>\<open>try\<close> and its promise has no way to be
  rejected. Below, two consumes are called before the load of the device has completed, and
  the engine throws when the server's reply is handled (it creates no transport on a device
  that is not loaded, and it refuses these transport parameters on any device): the
  rejection of the callback is left unhandled, and whatever
  happens afterwards (\<open>evs\<close> is any sequence of transitions), the first call stays in
  flight, so it never resolves with \<^verbatim>\<open>null\<close>, and the second call stays in the queue.
\<close>

theorem consume_stalls_when_setup_throws:
  "trace (run (constructor ''me'')
      [Ws_open, Ws_message RtpCapabilities, Call_consumeTrack ''A'' ''p1'',
       Call_consumeTrack ''B'' ''p2'', Queue_reaction 0,
       Ws_message (ConsumerTransportCreated \<lparr>td_id = ''t1'', td_accepted = False\<rparr>)])
    = [Sent (CreateConsumerTransport ''me''),
       Emitted ''consumerTransportCreated''
         (Transport_args \<lparr>td_id = ''t1'', td_accepted = False\<rparr>),
       Unhandled_rejection Engine_error]
  \<and> cc_phase (consumeQueue (run (run (constructor ''me'')
      [Ws_open, Ws_message RtpCapabilities, Call_consumeTrack ''A'' ''p1'',
       Call_consumeTrack ''B'' ''p2'', Queue_reaction 0,
       Ws_message (ConsumerTransportCreated \<lparr>td_id = ''t1'', td_accepted = False\<rparr>)]) evs) ! 0)
    = Running
  \<and> cc_phase (consumeQueue (run (run (constructor ''me'')
      [Ws_open, Ws_message RtpCapabilities, Call_consumeTrack ''A'' ''p1'',
       Call_consumeTrack ''B'' ''p2'', Queue_reaction 0,
       Ws_message (ConsumerTransportCreated \<lparr>td_id = ''t1'', td_accepted = False\<rparr>)]) evs) ! 1)
    = Queued"
proof -
  let ?s = "run (constructor ''me'')
      [Ws_open, Ws_message RtpCapabilities, Call_consumeTrack ''A'' ''p1'',
       Call_consumeTrack ''B'' ''p2'', Queue_reaction 0,
       Ws_message (ConsumerTransportCreated \<lparr>td_id = ''t1'', td_accepted = False\<rparr>)]"
  have st: "stalled ?s"
    by (simp add: model_defs stalled_def idle_def tokens_def map_tokens_def handlers_wf_def
          fifo_Cons)
  have len: "1 < length (consumeQueue ?s)" by (simp add: model_defs)
  have tr: "trace ?s = [Sent (CreateConsumerTransport ''me''),
       Emitted ''consumerTransportCreated''
         (Transport_args \<lparr>td_id = ''t1'', td_accepted = False\<rparr>),
       Unhandled_rejection Engine_error]"
    by (simp add: model_defs)
  from stalled_forever [OF st len, of evs] tr show ?thesis by (simp only: simp_thms)
qed

text \<open>
  Claim C8 fails on the code where a single-fire handler is followed by another handler
  of the same event. \<^verbatim>\<open>produceTrack\<close> has registered its single-fire handler for
  \<^verbatim>\<open>producerTransportCreated\<close>, then the application registers observer \<open>7\<close> for the same
  event. When the event is published, the wrapper is called and removes itself from the
  array that \<^verbatim>\<open>forEach\<close> is walking; the observer moves to index \<open>0\<close>, the loop goes on at
  index \<open>1\<close>, and the observer is never called.
\<close>

theorem emit_skips_handler_after_once:
  "handlers_of (run (constructor ''me'')
      [Ws_open, Ws_message RtpCapabilities, Engine_done (Load_op 0) Engine_loaded,
       Call_produceTrack 5, Call_on ''producerTransportCreated'' 7]) ''producerTransportCreated''
    = [Once_wrapper 1 ''producerTransportCreated'' (On_producerTransportCreated 5),
       Plain (Observer 7)]
  \<and> trace (run (constructor ''me'')
      [Ws_open, Ws_message RtpCapabilities, Engine_done (Load_op 0) Engine_loaded,
       Call_produceTrack 5, Call_on ''producerTransportCreated'' 7,
       Ws_message (ProducerTransportCreated \<lparr>td_id = ''pt'', td_accepted = True\<rparr>)])
    = [Sent (CreateProducerTransport ''me''),
       Emitted ''producerTransportCreated''
         (Transport_args \<lparr>td_id = ''pt'', td_accepted = True\<rparr>)]
  \<and> handlers_of (run (constructor ''me'')
      [Ws_open, Ws_message RtpCapabilities, Engine_done (Load_op 0) Engine_loaded,
       Call_produceTrack 5, Call_on ''producerTransportCreated'' 7,
       Ws_message (ProducerTransportCreated \<lparr>td_id = ''pt'', td_accepted = True\<rparr>)])
      ''producerTransportCreated'' = [Plain (Observer 7)]"
  by (simp add: model_defs)

end
